theory Spec2Isabelle
  imports Complex_Main "HOL-Library.AList"
begin

section \<open>Conventions of the embedding\<close>

text \<open>
  The Go sources are embedded function by function, keeping their names.

  \<^item> A \<^verbatim>\<open>float64\<close> is modelled by a \<^typ>\<open>real\<close>: comparison, addition, multiplication and
    division are exact.  Rounding, NaN and the infinities are outside the model; a division by
    zero, which in Go yields NaN or an infinity, is \<open>0\<close> here, so statements that depend on a
    quotient assume a non-zero divisor.
  \<^item> A Go \<^verbatim>\<open>map[string]V\<close> is an association list with distinct keys, read with
    \<^const>\<open>map_of\<close> and written with \<^const>\<open>AList.update\<close>.  The order of the list has no
    meaning for the program.  Every \<^verbatim>\<open>for k := range m\<close> visits the keys in an order chosen
    by the Go runtime; that choice is the field \<open>rangeOrder\<close> of the \<open>runtime\<close> record,
    indexed by the place of the loop in the source.
  \<^item> \<^verbatim>\<open>time.Now()\<close> and the formatting verb \<^verbatim>\<open>%.2f\<close> are fields of the same record.
  \<^item> \<^verbatim>\<open>sort.Slice\<close> promises no order among elements that compare equal.  The field
    \<open>sortOrder\<close> is the permutation of the positions that the runtime applies before the
    elements are put in order.
  \<^item> When \<^verbatim>\<open>append\<close> finds no room in the backing array of a slice, the runtime chooses the
    capacity of the new array: the field \<open>growCap\<close>, applied to the old capacity and to the
    length that is needed.
  \<^item> Logging through logrus has no effect on any result and is left out.
  \<^item> A value of type \<^verbatim>\<open>interface{}\<close> produced by \<^verbatim>\<open>encoding/json\<close> is a \<open>json\<close> value.
\<close>

datatype json =
    JNull
  | JBool bool
  | JNum real
  | JStr string
  | JArr "json list"
  | JObj "(string \<times> json) list"

type_synonym 'v gomap = "(string \<times> 'v) list"

datatype range_site =
    RangeActionCounts
  | RangeActionConfidences
  | RangeLabelSet
  | RangeProfiles
  | RangeProfilesInit
  | RangeDependencies
  | RangeInDegree

record runtime =
  now :: nat
  formatFloat2 :: "real \<Rightarrow> string"
  rangeOrder :: "range_site \<Rightarrow> string list \<Rightarrow> string list"
  sortOrder :: "nat list \<Rightarrow> nat list"
  growCap :: "nat \<Rightarrow> nat \<Rightarrow> nat"

text \<open>The runtime visits every key of a map exactly once.\<close>

definition range_ok :: "runtime \<Rightarrow> bool" where
  "range_ok rt \<longleftrightarrow>
     (\<forall>site ks. distinct ks \<longrightarrow>
        distinct (rangeOrder rt site ks) \<and> set (rangeOrder rt site ks) = set ks)"

text \<open>Reading a missing key of a Go map gives the zero value of the value type.\<close>

definition getInt :: "int gomap \<Rightarrow> string \<Rightarrow> int" where
  "getInt m k = (case map_of m k of Some v \<Rightarrow> v | None \<Rightarrow> 0)"

definition getList :: "'a list gomap \<Rightarrow> string \<Rightarrow> 'a list" where
  "getList m k = (case map_of m k of Some v \<Rightarrow> v | None \<Rightarrow> [])"

definition getReal :: "real gomap \<Rightarrow> string \<Rightarrow> real" where
  "getReal m k = (case map_of m k of Some v \<Rightarrow> v | None \<Rightarrow> 0)"

subsection \<open>Slices that share a backing array\<close>

text \<open>
  Where the program appends to a slice that it also keeps elsewhere, the backing arrays
  matter, and a slice is one of two things.

  \<^item> \<open>Exact xs\<close> is a slice that fills its backing array: its length is its capacity, so
    \<^verbatim>\<open>append\<close> never writes into that array, and the slice is its elements.  The nil slice
    is \<open>Exact []\<close>.  The slices that \<^verbatim>\<open>yaml.Unmarshal\<close> and a composite literal make are of
    this kind.
  \<^item> \<open>Prefix a n\<close> is the first \<open>n\<close> cells of the array number \<open>a\<close> of the memory: an array
    that an earlier \<^verbatim>\<open>append\<close> has allocated and that may have room to spare.

  An array is the cells written so far, and its capacity.  No array is ever freed.
\<close>

datatype 'a slice = Exact "'a list" | Prefix nat nat

record 'a array =
  cells :: "'a list"
  capacity :: nat

fun sliceLen :: "'a slice \<Rightarrow> nat" where
  "sliceLen (Exact xs) = length xs"
| "sliceLen (Prefix a n) = n"

fun sliceCap :: "'a array list \<Rightarrow> 'a slice \<Rightarrow> nat" where
  "sliceCap mem (Exact xs) = length xs"
| "sliceCap mem (Prefix a n) = (if a < length mem then capacity (mem ! a) else n)"

fun sliceElems :: "'a array list \<Rightarrow> 'a slice \<Rightarrow> 'a list" where
  "sliceElems mem (Exact xs) = xs"
| "sliceElems mem (Prefix a n) = (if a < length mem then take n (cells (mem ! a)) else [])"

text \<open>A slice into the memory is valid when its array exists and its cells have been
  written.\<close>

fun validSlice :: "'a array list \<Rightarrow> 'a slice \<Rightarrow> bool" where
  "validSlice mem (Exact xs) = True"
| "validSlice mem (Prefix a n) = (a < length mem \<and> n \<le> length (cells (mem ! a)))"

text \<open>
  \<^verbatim>\<open>append(s, xs...)\<close>.  Nothing to append: the slice itself.  Room in the array: the new
  elements are written after the first \<open>len(s)\<close> cells of the same array, over whatever another
  slice of that array has put there.  No room: a new array, of the capacity that the runtime
  chooses and of the needed length at least, receives the elements of \<open>s\<close> and the new ones.
\<close>

definition appendSlice ::
  "runtime \<Rightarrow> 'a array list \<Rightarrow> 'a slice \<Rightarrow> 'a list \<Rightarrow> 'a slice \<times> 'a array list" where
  "appendSlice rt mem s xs =
     (if xs = [] then (s, mem)
      else if sliceLen s + length xs \<le> sliceCap mem s
      then (case s of
              Prefix a n \<Rightarrow>
                (Prefix a (n + length xs),
                 mem[a := (mem ! a)\<lparr>cells := take n (cells (mem ! a)) @ xs @
                                              drop (n + length xs) (cells (mem ! a))\<rparr>])
            | Exact ys \<Rightarrow> (s, mem))
      else (Prefix (length mem) (sliceLen s + length xs),
            mem @ [\<lparr>cells = sliceElems mem s @ xs,
                    capacity = max (sliceLen s + length xs)
                                 (growCap rt (sliceCap mem s) (sliceLen s + length xs))\<rparr>]))"

subsection \<open>Package strings\<close>

fun HasPrefix :: "string \<Rightarrow> string \<Rightarrow> bool" where
  "HasPrefix s [] = True"
| "HasPrefix [] (p # ps) = False"
| "HasPrefix (c # cs) (p # ps) = (c = p \<and> HasPrefix cs ps)"

fun Contains :: "string \<Rightarrow> string \<Rightarrow> bool" where
  "Contains [] sub = (sub = [])"
| "Contains (c # cs) sub = (HasPrefix (c # cs) sub \<or> Contains cs sub)"

fun Join :: "string list \<Rightarrow> string \<Rightarrow> string" where
  "Join [] sep = []"
| "Join [x] sep = x"
| "Join (x # y # ys) sep = x @ sep @ Join (y # ys) sep"

section \<open>pkg/types\<close>

record Email =
  ID :: string
  ThreadID :: string
  Subject :: string
  From :: string
  To :: "string list"
  Body :: string
  Labels :: "string list"
  Headers :: "string gomap"
  Size :: int

record ClassificationResponse =
  ProfileID :: string
  Action :: string
  Confidence :: real
  Reasoning :: string
  Labels :: "string list"
  Metadata :: "json gomap"
  ProcessedAt :: nat

record PriorityRule =
  Name :: string
  Condition :: string
  Action :: string
  ConfidenceBoost :: real
  Priority :: int
  Reason :: string

record ConfidenceWeighting =
  Method :: string
  ProfileWeights :: "real gomap"

record ResolverConfig =
  Version :: string
  PriorityRules :: "PriorityRule list"
  ConfidenceWeighting :: ConfidenceWeighting
  ConflictResolution :: "string gomap"

section \<open>internal/resolver/resolver.go\<close>

definition min_f64 :: "real \<Rightarrow> real \<Rightarrow> real" where
  "min_f64 a b = (if a < b then a else b)"

text \<open>
  \<^verbatim>\<open>evaluateCondition\<close>: three substring tests on the condition text, each followed by a
  scan of the results (or of the email headers).  The quoted word in the second pattern is
  written with the character code of the apostrophe.
\<close>

definition importance_pattern :: string where
  "importance_pattern = ''importance == '' @ [CHR 0x27] @ ''critical'' @ [CHR 0x27]"

definition evaluateCondition ::
  "string \<Rightarrow> Email \<Rightarrow> ClassificationResponse list \<Rightarrow> bool" where
  "evaluateCondition condition email results =
     (if Contains condition ''phishing_score >= 0.8'' \<and>
         list_ex (\<lambda>r. case map_of (Metadata r) ''phishing_score'' of
                          Some (JNum score) \<Rightarrow> score \<ge> 0.8
                        | _ \<Rightarrow> False) results
      then True
      else if Contains condition importance_pattern \<and>
         list_ex (\<lambda>r. case map_of (Metadata r) ''importance'' of
                          Some (JStr imp) \<Rightarrow> imp = ''critical'' \<and> Confidence r \<ge> 0.7
                        | _ \<Rightarrow> False) results
      then True
      else if Contains condition ''sender_reputation.trust_score >= 0.9'' \<and>
         (case map_of (Headers email) ''X-Sender-Trust-Score'' of
            Some trustScore \<Rightarrow> Contains trustScore ''0.9'' \<or> Contains trustScore ''1.0''
          | None \<Rightarrow> False)
      then True
      else False)"

text \<open>
  \<^verbatim>\<open>resolveByHighestConfidence\<close>: the first result whose confidence is strictly greater than
  that of every earlier one; a nil pointer (\<open>None\<close>) on the empty list.
\<close>

fun highestFrom ::
  "ClassificationResponse option \<Rightarrow> ClassificationResponse list \<Rightarrow> ClassificationResponse option"
  where
  "highestFrom best [] = best"
| "highestFrom None (r # rs) = highestFrom (Some r) rs"
| "highestFrom (Some b) (r # rs) =
     highestFrom (if Confidence r > Confidence b then Some r else Some b) rs"

definition resolveByHighestConfidence ::
  "ClassificationResponse list \<Rightarrow> ClassificationResponse option" where
  "resolveByHighestConfidence results = highestFrom None results"

text \<open>
  \<^verbatim>\<open>applyPriorityRules\<close>.  \<^verbatim>\<open>sort.Slice\<close> orders the rules by descending priority and
  promises no order among rules of equal priority: the rules are first permuted as the
  runtime chooses (a choice that is no permutation of the positions leaves them in place) and
  then sorted stably, which gives every order that \<^verbatim>\<open>sort.Slice\<close> may produce.
\<close>

definition permuted :: "runtime \<Rightarrow> 'a list \<Rightarrow> 'a list" where
  "permuted rt xs =
     (let idx = sortOrder rt [0..<length xs]
      in if distinct idx \<and> set idx = set [0..<length xs] then map (nth xs) idx else xs)"

definition sortRules :: "runtime \<Rightarrow> PriorityRule list \<Rightarrow> PriorityRule list" where
  "sortRules rt rules = sort_key (\<lambda>r. - Priority r) (permuted rt rules)"

definition overrideResult ::
  "runtime \<Rightarrow> PriorityRule \<Rightarrow> ClassificationResponse list \<Rightarrow> ClassificationResponse" where
  "overrideResult rt rule results =
     (let result = \<lparr>ProfileID = '''', Action = PriorityRule.Action rule, Confidence = 1.0,
                     Reasoning = Reason rule, Labels = [], Metadata = [],
                     ProcessedAt = now rt\<rparr>
      in if ConfidenceBoost rule > 0
         then (case highestFrom None results of
                 Some highestResult \<Rightarrow>
                   result\<lparr>ClassificationResponse.Action :=
                            ClassificationResponse.Action highestResult,
                          Confidence :=
                            min_f64 1.0 (Confidence highestResult + ConfidenceBoost rule),
                          Reasoning :=
                            Reasoning highestResult @ '' (boosted by '' @ Name rule @ '')''\<rparr>
               | None \<Rightarrow> result)
         else result)"

fun firstMatching ::
  "runtime \<Rightarrow> PriorityRule list \<Rightarrow> Email \<Rightarrow> ClassificationResponse list \<Rightarrow>
   ClassificationResponse option" where
  "firstMatching rt [] email results = None"
| "firstMatching rt (rule # rules) email results =
     (if evaluateCondition (Condition rule) email results
      then Some (overrideResult rt rule results)
      else firstMatching rt rules email results)"

definition applyPriorityRules ::
  "runtime \<Rightarrow> ResolverConfig \<Rightarrow> Email \<Rightarrow> ClassificationResponse list \<Rightarrow>
   ClassificationResponse option" where
  "applyPriorityRules rt config email results =
     firstMatching rt (sortRules rt (PriorityRules config)) email results"

text \<open>\<^verbatim>\<open>applyConfidenceWeighting\<close>: a copy of each result, its confidence scaled and capped.\<close>

definition applyConfidenceWeighting ::
  "ResolverConfig \<Rightarrow> ClassificationResponse list \<Rightarrow> ClassificationResponse list" where
  "applyConfidenceWeighting config results =
     map (\<lambda>result.
            case map_of (ProfileWeights (ConfidenceWeighting config)) (ProfileID result) of
              Some weight \<Rightarrow> result\<lparr>Confidence := min_f64 1.0 (Confidence result * weight)\<rparr>
            | None \<Rightarrow> result) results"

text \<open>Grouping the results by action, as both \<^verbatim>\<open>resolveByConsensus\<close> and
  \<^verbatim>\<open>resolveByWeightedAverage\<close> do with \<^verbatim>\<open>append\<close> on a map of slices.\<close>

fun groupByAction ::
  "ClassificationResponse list gomap \<Rightarrow> ClassificationResponse list \<Rightarrow>
   ClassificationResponse list gomap" where
  "groupByAction groups [] = groups"
| "groupByAction groups (r # rs) =
     groupByAction
       (AList.update (ClassificationResponse.Action r)
          (getList groups (ClassificationResponse.Action r) @ [r]) groups) rs"

fun countActions :: "int gomap \<Rightarrow> ClassificationResponse list \<Rightarrow> int gomap" where
  "countActions counts [] = counts"
| "countActions counts (r # rs) =
     countActions
       (AList.update (ClassificationResponse.Action r)
          (getInt counts (ClassificationResponse.Action r) + 1) counts) rs"

text \<open>The loop \<^verbatim>\<open>for action, count := range actionCounts\<close> with its running maximum.\<close>

fun mostCommon :: "int gomap \<Rightarrow> string list \<Rightarrow> string \<times> int \<Rightarrow> string \<times> int" where
  "mostCommon counts [] best = best"
| "mostCommon counts (action # as) (bestAction, maxCount) =
     mostCommon counts as
       (if getInt counts action > maxCount then (action, getInt counts action)
        else (bestAction, maxCount))"

definition resolveByConsensus ::
  "runtime \<Rightarrow> ClassificationResponse list \<Rightarrow> ClassificationResponse option" where
  "resolveByConsensus rt results =
     (let actionCounts = countActions [] results;
          actionResults = groupByAction [] results;
          (bestAction, maxCount) =
             mostCommon actionCounts (rangeOrder rt RangeActionCounts (map fst actionCounts))
               ('''', 0)
      in resolveByHighestConfidence (getList actionResults bestAction))"

text \<open>The inner loop of \<^verbatim>\<open>resolveByWeightedAverage\<close> over one group: the pair
  (\<open>totalWeight\<close>, \<open>weightedSum\<close>).\<close>

fun groupTotals ::
  "ResolverConfig \<Rightarrow> ClassificationResponse list \<Rightarrow> real \<times> real \<Rightarrow> real \<times> real" where
  "groupTotals config [] acc = acc"
| "groupTotals config (result # rs) (totalWeight, weightedSum) =
     (let weight = (case map_of (ProfileWeights (ConfidenceWeighting config)) (ProfileID result) of
                      Some w \<Rightarrow> w | None \<Rightarrow> 1.0)
      in groupTotals config rs (totalWeight + weight, weightedSum + Confidence result * weight))"

definition groupConfidence :: "ResolverConfig \<Rightarrow> ClassificationResponse list \<Rightarrow> real" where
  "groupConfidence config grp =
     (let (totalWeight, weightedSum) = groupTotals config grp (0, 0)
      in weightedSum / totalWeight)"

text \<open>The loop \<^verbatim>\<open>for action, confidence := range actionConfidences\<close>.\<close>

fun bestWeighted :: "real gomap \<Rightarrow> string list \<Rightarrow> string \<times> real \<Rightarrow> string \<times> real" where
  "bestWeighted confs [] best = best"
| "bestWeighted confs (action # as) (bestAction, bestConfidence) =
     bestWeighted confs as
       (if getReal confs action > bestConfidence then (action, getReal confs action)
        else (bestAction, bestConfidence))"

definition combineReasonings :: "runtime \<Rightarrow> ClassificationResponse list \<Rightarrow> string" where
  "combineReasonings rt results =
     Join (map (\<lambda>result. Reasoning result @ '' (conf: '' @
                          formatFloat2 rt (Confidence result) @ '')'')
             (filter (\<lambda>result. Reasoning result \<noteq> '''') results)) ''; ''"

definition resolveByWeightedAverage ::
  "runtime \<Rightarrow> ResolverConfig \<Rightarrow> ClassificationResponse list \<Rightarrow> ClassificationResponse" where
  "resolveByWeightedAverage rt config results =
     (let actionGroups = groupByAction [] results;
          actionConfidences = map (\<lambda>(action, grp). (action, groupConfidence config grp))
                                actionGroups;
          (bestAction, bestConfidence) =
             bestWeighted actionConfidences
               (rangeOrder rt RangeActionConfidences (map fst actionConfidences)) ('''', 0);
          labelSet = remdups (concat (map ClassificationResponse.Labels
                                        (getList actionGroups bestAction)))
      in \<lparr>ProfileID = '''', Action = bestAction, Confidence = bestConfidence,
          Reasoning = combineReasonings rt (getList actionGroups bestAction),
          Labels = rangeOrder rt RangeLabelSet labelSet, Metadata = [],
          ProcessedAt = now rt\<rparr>)"

definition resolveConflicts ::
  "runtime \<Rightarrow> ResolverConfig \<Rightarrow> ClassificationResponse list \<Rightarrow>
   ClassificationResponse option" where
  "resolveConflicts rt config results =
     (if Method (ConfidenceWeighting config) = ''highest_confidence''
      then resolveByHighestConfidence results
      else if Method (ConfidenceWeighting config) = ''consensus''
      then resolveByConsensus rt results
      else Some (resolveByWeightedAverage rt config results))"

text \<open>
  \<^verbatim>\<open>ResolveDecision\<close>.  A nil \<open>finalResult\<close> would panic at the log statement that reads its
  fields; the panic is the error \<open>NilResult\<close>.
\<close>

datatype resolver_error = NoResults | NilResult

definition ResolveDecision ::
  "runtime \<Rightarrow> ResolverConfig \<Rightarrow> Email \<Rightarrow> ClassificationResponse list \<Rightarrow>
   resolver_error + ClassificationResponse" where
  "ResolveDecision rt config email results =
     (if length results = 0 then Inl NoResults
      else if length results = 1 then Inr (results ! 0)
      else case applyPriorityRules rt config email results of
             Some priorityResult \<Rightarrow> Inr priorityResult
           | None \<Rightarrow>
               (case resolveConflicts rt config (applyConfidenceWeighting config results) of
                  Some finalResult \<Rightarrow> Inr finalResult
                | None \<Rightarrow> Inl NilResult))"

section \<open>Properties of the resolver\<close>

text \<open>
  C10.  A result list with exactly one classification response is returned as it is, whatever
  the priority rules, the profile weights and the weighting method of the configuration say;
  the empty result list is an error.
\<close>

theorem ResolveDecision_single_and_empty:
  "ResolveDecision rt config email [r] = Inr r \<and>
   ResolveDecision rt config email [] = Inl NoResults"
  by (simp add: ResolveDecision_def)

subsection \<open>What the selection loops pick\<close>



lemma getList_update:
  "getList (AList.update k v m) k' = (if k' = k then v else getList m k')"
  by (simp add: getList_def update_conv')

lemma getInt_update:
  "getInt (AList.update k v m) k' = (if k' = k then v else getInt m k')"
  by (simp add: getInt_def update_conv')

lemma keys_update: "fst ` set (AList.update k v m) = insert k (fst ` set m)"
  by (induction m) auto


























subsection \<open>Concrete inputs\<close>

text \<open>Two runtimes: one visits the keys of a map in the order of insertion, the other in the
  reverse order.  Both are behaviours the Go runtime may show.  Both double the capacity of
  a slice that has to grow, or take the length needed when that is more, as the Go runtime
  does for slices of fewer than 256 elements.\<close>

definition rt_plain :: runtime where
  "rt_plain =
     \<lparr>now = 0, formatFloat2 = (\<lambda>x. []), rangeOrder = (\<lambda>site ks. ks),
      sortOrder = (\<lambda>idx. idx),
      growCap = (\<lambda>oldCap newLen. if newLen > 2 * oldCap then newLen else 2 * oldCap)\<rparr>"

definition rt_reversed :: runtime where
  "rt_reversed =
     \<lparr>now = 0, formatFloat2 = (\<lambda>x. []), rangeOrder = (\<lambda>site ks. rev ks),
      sortOrder = (\<lambda>idx. rev idx),
      growCap = (\<lambda>oldCap newLen. if newLen > 2 * oldCap then newLen else 2 * oldCap)\<rparr>"

definition config_default :: ResolverConfig where
  "config_default =
     \<lparr>Version = ''2.1.0'', PriorityRules = [],
      ConfidenceWeighting = \<lparr>Method = ''weighted_average'', ProfileWeights = []\<rparr>,
      ConflictResolution = []\<rparr>"

definition email_plain :: Email where
  "email_plain =
     \<lparr>ID = ''m1'', ThreadID = ''t1'', Subject = ''hello'', From = ''a@example.com'',
      To = [''b@example.com''], Body = ''text'', Labels = [''INBOX''], Headers = [], Size = 4\<rparr>"

definition answer :: "string \<Rightarrow> string \<Rightarrow> real \<Rightarrow> ClassificationResponse" where
  "answer pid act c =
     \<lparr>ProfileID = pid, Action = act, Confidence = c, Reasoning = [], Labels = [],
      Metadata = [], ProcessedAt = 0\<rparr>"

lemma range_ok_plain: "range_ok rt_plain"
  by (simp add: range_ok_def rt_plain_def)

lemma range_ok_reversed: "range_ok rt_reversed"
  by (simp add: range_ok_def rt_reversed_def)

lemma sortRules_Nil: "sortRules rt [] = []"
  by (simp add: sortRules_def permuted_def Let_def)

lemma no_rules_default: "applyPriorityRules rt config_default email results = None"
  by (simp add: applyPriorityRules_def config_default_def sortRules_Nil)


text \<open>
  C5 as stated fails: with \<^verbatim>\<open>archive\<close> at 0.86 and \<^verbatim>\<open>star\<close> at 0.80 the decision is
  \<^verbatim>\<open>archive\<close>, although archive exceeds star by less than 0.2.
\<close>

theorem star_archive_counterexample:
  "ResolveDecision rt_plain config_default email_plain
     [answer ''spam'' ''archive'' 0.86, answer ''work_priority'' ''star'' 0.80]
   = Inr (answer [] ''archive'' 0.86) \<and>
   applyPriorityRules rt_plain config_default email_plain
     [answer ''spam'' ''archive'' 0.86, answer ''work_priority'' ''star'' 0.80] = None \<and>
   (0.86::real) - 0.80 < 0.2"
  by (simp add: ResolveDecision_def applyPriorityRules_def sortRules_Nil config_default_def
      resolveConflicts_def resolveByWeightedAverage_def applyConfidenceWeighting_def
      answer_def getList_def getReal_def groupConfidence_def rt_plain_def
      combineReasonings_def Let_def)






subsection \<open>Two candidates with different actions\<close>

lemma two_perm:
  "distinct l \<Longrightarrow> set l = {a, b} \<Longrightarrow> a \<noteq> b \<Longrightarrow> l = [a, b] \<or> l = [b, a]"
proof -
  assume d: "distinct l" and s: "set l = {a, b}" and ab: "a \<noteq> b"
  then have "length l = 2" using distinct_card[of l] by simp
  then obtain x y where l: "l = [x, y]"
    by (metis (no_types) Suc_length_conv length_0_conv numeral_2_eq_2)
  with s ab show ?thesis by (auto simp: doubleton_eq_iff)
qed

lemma weighted_two:
  assumes ok: "range_ok rt"
    and nw: "ProfileWeights (ConfidenceWeighting config) = []"
    and diff: "ClassificationResponse.Action x \<noteq> ClassificationResponse.Action y"
    and gt: "Confidence x > Confidence y" and pos: "Confidence x > 0"
    and res: "results = [x, y] \<or> results = [y, x]"
  shows "ClassificationResponse.Action (resolveByWeightedAverage rt config results) =
           ClassificationResponse.Action x \<and>
         Confidence (resolveByWeightedAverage rt config results) = Confidence x"
proof -
  let ?ax = "ClassificationResponse.Action x" and ?ay = "ClassificationResponse.Action y"
  have gx: "groupConfidence config [x] = Confidence x"
    and gy: "groupConfidence config [y] = Confidence y"
    using nw by (simp_all add: groupConfidence_def)
  from res show ?thesis
  proof
    assume r: "results = [x, y]"
    let ?ks = "rangeOrder rt RangeActionConfidences [?ax, ?ay]"
    have "distinct ?ks \<and> set ?ks = {?ax, ?ay}"
      using ok diff by (simp add: range_ok_def)
    then have "?ks = [?ax, ?ay] \<or> ?ks = [?ay, ?ax]" using diff by (intro two_perm) auto
    then show ?thesis using r diff gt pos gx gy
      by (auto simp: resolveByWeightedAverage_def getList_def getReal_def Let_def)
  next
    assume r: "results = [y, x]"
    let ?ks = "rangeOrder rt RangeActionConfidences [?ay, ?ax]"
    have "distinct ?ks \<and> set ?ks = {?ax, ?ay}"
      using ok diff by (auto simp: range_ok_def)
    then have "?ks = [?ax, ?ay] \<or> ?ks = [?ay, ?ax]" using diff by (intro two_perm) auto
    then show ?thesis using r diff gt pos gx gy
      by (auto simp: resolveByWeightedAverage_def getList_def getReal_def Let_def)
  qed
qed

text \<open>
  C5 (as amended).  \<^verbatim>\<open>ConflictResolution\<close> is never read.  For two candidates with
  different actions (such as \<^verbatim>\<open>star\<close> and \<^verbatim>\<open>archive\<close>, in either order), no priority rule
  firing, no profile weights, and the method \<^verbatim>\<open>weighted_average\<close> (the default) or
  \<^verbatim>\<open>highest_confidence\<close>: the candidate whose confidence is strictly greater, and positive,
  is the decision, by any margin and for every iteration order of the maps.
\<close>

theorem two_candidates_higher_confidence_wins:
  assumes ok: "range_ok rt"
    and res: "results = [x, y] \<or> results = [y, x]"
    and nop: "applyPriorityRules rt config email results = None"
    and meth: "Method (ConfidenceWeighting config) \<noteq> ''consensus''"
    and nw: "ProfileWeights (ConfidenceWeighting config) = []"
    and diff: "ClassificationResponse.Action x \<noteq> ClassificationResponse.Action y"
    and gt: "Confidence x > Confidence y" and pos: "Confidence x > 0"
  shows "\<exists>d. ResolveDecision rt config email results = Inr d \<and>
           ClassificationResponse.Action d = ClassificationResponse.Action x \<and>
           Confidence d = Confidence x"
proof -
  have w: "applyConfidenceWeighting config results = results"
    using nw by (simp add: applyConfidenceWeighting_def)
  have len: "length results = 2" using res by auto
  show ?thesis
  proof (cases "Method (ConfidenceWeighting config) = ''highest_confidence''")
    case True
    have "resolveByHighestConfidence results = Some x"
      using res gt by (auto simp: resolveByHighestConfidence_def)
    then show ?thesis using True w len nop
      by (simp add: ResolveDecision_def resolveConflicts_def)
  next
    case False
    from weighted_two[OF ok nw diff gt pos res] False meth w len nop show ?thesis
      by (simp add: ResolveDecision_def resolveConflicts_def)
  qed
qed

theorem two_candidates_higher_confidence_wins_witness:
  "range_ok rt_reversed \<and>
   applyPriorityRules rt_reversed config_default email_plain
     [answer ''work_priority'' ''star'' 0.80, answer ''spam'' ''archive'' 0.86] = None \<and>
   Method (ConfidenceWeighting config_default) \<noteq> ''consensus'' \<and>
   ProfileWeights (ConfidenceWeighting config_default) = [] \<and>
   ClassificationResponse.Action (answer ''spam'' ''archive'' 0.86) \<noteq>
     ClassificationResponse.Action (answer ''work_priority'' ''star'' 0.80) \<and>
   Confidence (answer ''spam'' ''archive'' 0.86) >
     Confidence (answer ''work_priority'' ''star'' 0.80) \<and>
   Confidence (answer ''spam'' ''archive'' 0.86) > 0 \<and>
   (\<exists>d. ResolveDecision rt_reversed config_default email_plain
          [answer ''work_priority'' ''star'' 0.80, answer ''spam'' ''archive'' 0.86] = Inr d \<and>
        ClassificationResponse.Action d =
          ClassificationResponse.Action (answer ''spam'' ''archive'' 0.86) \<and>
        Confidence d = Confidence (answer ''spam'' ''archive'' 0.86))"
proof -
  let ?x = "answer ''spam'' ''archive'' 0.86"
  let ?y = "answer ''work_priority'' ''star'' 0.80"
  have res: "[?y, ?x] = [?x, ?y] \<or> [?y, ?x] = [?y, ?x]" by simp
  have meth: "Method (ConfidenceWeighting config_default) \<noteq> ''consensus''"
    by (simp add: config_default_def)
  have nw: "ProfileWeights (ConfidenceWeighting config_default) = []"
    by (simp add: config_default_def)
  have diff: "ClassificationResponse.Action ?x \<noteq> ClassificationResponse.Action ?y"
    by (simp add: answer_def)
  have gt: "Confidence ?x > Confidence ?y" by (simp add: answer_def)
  have pos: "Confidence ?x > 0" by (simp add: answer_def)
  have nop: "applyPriorityRules rt_reversed config_default email_plain [?y, ?x] = None"
    by (rule no_rules_default)
  from two_candidates_higher_confidence_wins[OF range_ok_reversed res nop meth nw diff gt pos]
  show ?thesis
    using range_ok_reversed nop meth nw diff gt pos by blast
qed

section \<open>internal/audit/logger.go\<close>

text \<open>
  The audit file is the list of the entries written to it, oldest first; a logger created
  with auditing disabled has no file.  What the logger takes from its environment is a record:
  the clock and the identifier derived from it, SHA-256 and bcrypt (both with hexadecimal
  output; bcrypt may refuse its input), the formatting of the timestamp and of the confidence,
  \<^verbatim>\<open>json.Marshal\<close> on the metadata, and the outcome of the file operations.
\<close>

record AuditConfig =
  Enabled :: bool
  Directory :: string
  MaxFileSize :: int
  MaxFiles :: int
  RotationPeriod :: int
  IntegrityCheck :: bool
  EncryptionKey :: string

record AuditEntry =
  ID :: string
  Timestamp :: nat
  EventType :: string
  EmailID :: string
  ProfileID :: string
  Action :: string
  Confidence :: real
  Reasoning :: string
  Metadata :: "json gomap option"
  PrevHash :: string
  Hash :: string
  Signature :: string

datatype open_result = MkdirFailed | OpenFailed | Opened "AuditEntry list" bool

datatype write_result = WriteOK | MarshalFailed | WriteFailed | SyncFailed

record audit_env =
  newID :: string
  timeNow :: nat
  sha256Hex :: "string \<Rightarrow> string"
  bcryptHex :: "string \<Rightarrow> string option"
  formatTime :: "nat \<Rightarrow> string"
  formatFloat :: "real \<Rightarrow> string"
  marshalMetadata :: "json gomap \<Rightarrow> string"
  openFile :: open_result
  writeFile :: write_result

record Logger =
  config :: AuditConfig
  logFile :: "AuditEntry list option"
  entryCount :: int
  lastHash :: string

datatype audit_error =
    CreateDirectoryError
  | OpenFileError
  | InitializeChainError
  | MarshalError
  | WriteError
  | SyncError

definition calculateHash :: "audit_env \<Rightarrow> AuditEntry \<Rightarrow> string" where
  "calculateHash env entry =
     (let data = AuditEntry.ID entry @ ''|'' @ formatTime env (Timestamp entry) @ ''|'' @
                 EventType entry @ ''|'' @ EmailID entry @ ''|'' @
                 AuditEntry.ProfileID entry @ ''|'' @ AuditEntry.Action entry @ ''|'' @
                 formatFloat env (AuditEntry.Confidence entry) @ ''|'' @ PrevHash entry;
          data = (case AuditEntry.Metadata entry of
                    Some metadata \<Rightarrow> data @ ''|'' @ marshalMetadata env metadata
                  | None \<Rightarrow> data)
      in sha256Hex env data)"

definition signEntry :: "audit_env \<Rightarrow> Logger \<Rightarrow> AuditEntry \<Rightarrow> string option" where
  "signEntry env l entry = bcryptHex env (Hash entry @ EncryptionKey (config l))"

text \<open>\<^verbatim>\<open>writeEntry\<close>: sign when a key is configured (a failed signature is only logged), then
  marshal, append and sync.  A failed sync leaves the line in the file.\<close>

definition writeEntry :: "audit_env \<Rightarrow> Logger \<Rightarrow> AuditEntry \<Rightarrow> audit_error option \<times> Logger"
  where
  "writeEntry env l entry =
     (let entry = (if EncryptionKey (config l) \<noteq> []
                   then (case signEntry env l entry of
                           Some signature \<Rightarrow> entry\<lparr>Signature := signature\<rparr>
                         | None \<Rightarrow> entry)
                   else entry)
      in if writeFile env = MarshalFailed then (Some MarshalError, l)
         else case logFile l of
                None \<Rightarrow> (Some WriteError, l)
              | Some lines \<Rightarrow>
                  if writeFile env = WriteFailed then (Some WriteError, l)
                  else if writeFile env = SyncFailed
                  then (Some SyncError, l\<lparr>logFile := Some (lines @ [entry])\<rparr>)
                  else (None, l\<lparr>logFile := Some (lines @ [entry])\<rparr>))"

definition initializeChain :: "audit_env \<Rightarrow> Logger \<Rightarrow> audit_error option \<times> Logger" where
  "initializeChain env l =
     (let genesis = \<lparr>ID = newID env, Timestamp = timeNow env, EventType = ''chain_genesis'',
                      EmailID = [], ProfileID = [], Action = [], Confidence = 0,
                      Reasoning = [],
                      Metadata = Some [(''version'', JStr ''1.0''),
                                       (''system'', JStr ''mailsentinel'')],
                      PrevHash = [], Hash = [], Signature = []\<rparr>;
          genesis = genesis\<lparr>Hash := calculateHash env genesis\<rparr>;
          l = l\<lparr>lastHash := Hash genesis\<rparr>
      in writeEntry env l genesis)"

definition loadLastHash :: "Logger \<Rightarrow> audit_error option \<times> Logger" where
  "loadLastHash l = (None, l\<lparr>lastHash := []\<rparr>)"

definition NewLogger :: "audit_env \<Rightarrow> AuditConfig \<Rightarrow> audit_error + Logger" where
  "NewLogger env cfg =
     (if \<not> Enabled cfg
      then Inr \<lparr>config = cfg, logFile = None, entryCount = 0, lastHash = []\<rparr>
      else case openFile env of
             MkdirFailed \<Rightarrow> Inl CreateDirectoryError
           | OpenFailed \<Rightarrow> Inl OpenFileError
           | Opened lines statOK \<Rightarrow>
               (let auditLogger = \<lparr>config = cfg, logFile = Some lines, entryCount = 0,
                                    lastHash = []\<rparr>
                in if statOK \<and> length lines = 0
                   then (case initializeChain env auditLogger of
                           (Some err, l) \<Rightarrow> Inl InitializeChainError
                         | (None, l) \<Rightarrow> Inr l)
                   else (case loadLastHash auditLogger of
                           (Some err, l) \<Rightarrow> Inr (l\<lparr>lastHash := []\<rparr>)
                         | (None, l) \<Rightarrow> Inr l)))"

subsection \<open>The genesis entry\<close>

definition audit_config_default :: AuditConfig where
  "audit_config_default =
     \<lparr>Enabled = True, Directory = ''data/audit'', MaxFileSize = 104857600, MaxFiles = 10,
      RotationPeriod = 86400, IntegrityCheck = True, EncryptionKey = []\<rparr>"

definition audit_env_plain :: audit_env where
  "audit_env_plain =
     \<lparr>newID = ''1700000000000000000'', timeNow = 1700000000,
      sha256Hex = (\<lambda>data. data), bcryptHex = (\<lambda>data. None),
      formatTime = (\<lambda>t. ''2023-11-14T22:13:20Z''), formatFloat = (\<lambda>x. ''0.000000''),
      marshalMetadata = (\<lambda>m. ''{}''), openFile = Opened [] True, writeFile = WriteOK\<rparr>"

definition genesis_plain :: AuditEntry where
  "genesis_plain =
     \<lparr>ID = ''1700000000000000000'', Timestamp = 1700000000, EventType = ''chain_genesis'',
      EmailID = [], ProfileID = [], Action = [], Confidence = 0, Reasoning = [],
      Metadata = Some [(''version'', JStr ''1.0''), (''system'', JStr ''mailsentinel'')],
      PrevHash = [],
      Hash = ''1700000000000000000|2023-11-14T22:13:20Z|chain_genesis||||0.000000||{}'',
      Signature = []\<rparr>"

text \<open>
  C9 as stated fails on the event type: the first entry of a new chain has the event type
  \<^verbatim>\<open>chain_genesis\<close>, not \<^verbatim>\<open>genesis\<close>.
\<close>

theorem genesis_event_type_counterexample:
  "NewLogger audit_env_plain audit_config_default =
     Inr \<lparr>config = audit_config_default, logFile = Some [genesis_plain], entryCount = 0,
          lastHash = Hash genesis_plain\<rparr> \<and>
   EventType genesis_plain = ''chain_genesis'' \<and>
   EventType genesis_plain \<noteq> ''genesis''"
  by (simp add: NewLogger_def audit_env_plain_def audit_config_default_def initializeChain_def
      writeEntry_def calculateHash_def genesis_plain_def Let_def)

text \<open>
  C9 (as amended).  When auditing is enabled, the audit file opens empty and the write
  succeeds, the new logger's file holds exactly one entry: its \<^verbatim>\<open>prev_hash\<close> is the empty
  string, its event type is \<^verbatim>\<open>chain_genesis\<close>, and its hash, which the logger keeps as the last
  hash of the chain, is the hash computed from its own fields.
\<close>

theorem NewLogger_genesis:
  assumes en: "Enabled cfg" and op: "openFile env = Opened [] True"
    and wr: "writeFile env = WriteOK"
  shows "\<exists>l g. NewLogger env cfg = Inr l \<and> logFile l = Some [g] \<and>
           PrevHash g = [] \<and> EventType g = ''chain_genesis'' \<and>
           lastHash l = Hash g \<and>
           Hash g = calculateHash env (g\<lparr>Hash := [], Signature := []\<rparr>)"
proof -
  let ?g0 = "\<lparr>ID = newID env, Timestamp = timeNow env, EventType = ''chain_genesis'',
              EmailID = [], ProfileID = [], Action = [], Confidence = 0, Reasoning = [],
              Metadata = Some [(''version'', JStr ''1.0''), (''system'', JStr ''mailsentinel'')],
              PrevHash = [], Hash = [], Signature = []\<rparr>"
  let ?h = "calculateHash env ?g0"
  let ?l0 = "\<lparr>config = cfg, logFile = Some [], entryCount = 0, lastHash = []\<rparr>"
  obtain sg where ini: "initializeChain env ?l0 =
      (None, ?l0\<lparr>lastHash := ?h, logFile := Some [?g0\<lparr>Hash := ?h, Signature := sg\<rparr>]\<rparr>)"
  proof (cases "EncryptionKey cfg \<noteq> [] \<and> bcryptHex env (?h @ EncryptionKey cfg) \<noteq> None")
    case True
    then obtain s where "bcryptHex env (?h @ EncryptionKey cfg) = Some s" by auto
    with True wr have "initializeChain env ?l0 =
      (None, ?l0\<lparr>lastHash := ?h, logFile := Some [?g0\<lparr>Hash := ?h, Signature := s\<rparr>]\<rparr>)"
      by (simp add: initializeChain_def writeEntry_def signEntry_def Let_def)
    then show ?thesis by (rule that)
  next
    case False
    with wr have "initializeChain env ?l0 =
      (None, ?l0\<lparr>lastHash := ?h, logFile := Some [?g0\<lparr>Hash := ?h, Signature := []\<rparr>]\<rparr>)"
      by (auto simp: initializeChain_def writeEntry_def signEntry_def Let_def)
    then show ?thesis by (rule that)
  qed
  let ?g = "?g0\<lparr>Hash := ?h, Signature := sg\<rparr>"
  let ?l = "?l0\<lparr>lastHash := ?h, logFile := Some [?g]\<rparr>"
  have "NewLogger env cfg = Inr ?l"
    using en op ini by (simp add: NewLogger_def)
  moreover have "logFile ?l = Some [?g]" by simp
  moreover have "PrevHash ?g = []" "EventType ?g = ''chain_genesis''" by simp_all
  moreover have "lastHash ?l = Hash ?g" by simp
  moreover have "Hash ?g = calculateHash env (?g\<lparr>Hash := [], Signature := []\<rparr>)" by simp
  ultimately show ?thesis by blast
qed

theorem NewLogger_genesis_witness:
  "Enabled audit_config_default \<and> openFile audit_env_plain = Opened [] True \<and>
   writeFile audit_env_plain = WriteOK \<and>
   (\<exists>l g. NewLogger audit_env_plain audit_config_default = Inr l \<and> logFile l = Some [g] \<and>
           PrevHash g = [] \<and> EventType g = ''chain_genesis'' \<and>
           lastHash l = Hash g \<and>
           Hash g = calculateHash audit_env_plain (g\<lparr>Hash := [], Signature := []\<rparr>))"
proof -
  have e: "Enabled audit_config_default" by (simp add: audit_config_default_def)
  have o: "openFile audit_env_plain = Opened [] True" by (simp add: audit_env_plain_def)
  have w: "writeFile audit_env_plain = WriteOK" by (simp add: audit_env_plain_def)
  from NewLogger_genesis[OF e o w] e o w show ?thesis by blast
qed

section \<open>pkg/types: profiles\<close>

record ConditionalExecution =
  When :: string
  Reason :: string

record ModelParams =
  Temperature :: real
  MaxTokens :: int
  TimeoutSeconds :: int
  TopP :: real
  TopK :: int

text \<open>\<^verbatim>\<open>ConfidenceRange\<close> is an array of two floats, so its length is always two.\<close>

record ValidationConfig =
  RequiredFields :: "string list"
  ConfidenceRange :: "real \<times> real"
  AllowedActions :: "string list"

record ResponseConfig =
  Schema :: string
  Validation :: ValidationConfig

record FewShotExample =
  Name :: string
  Input :: string
  Output :: string

record PolicyCondition =
  Name :: string
  Expression :: string
  Actions :: "string list"
  Priority :: int

record PolicyConfig =
  Conditions :: "PolicyCondition slice"

record Profile =
  ID :: string
  Version :: string
  InheritsFrom :: string
  DependsOn :: "string list"
  ConditionalExecution :: "ConditionalExecution option"
  Model :: string
  ModelParams :: ModelParams
  Response :: ResponseConfig
  System :: string
  FewShot :: "FewShotExample slice"
  Policy :: PolicyConfig
  CreatedAt :: nat
  UpdatedAt :: nat

text \<open>The arrays that the few-shot slices and the condition slices of the profiles may
  share.\<close>

record memory =
  fewShotArrays :: "FewShotExample array list"
  conditionArrays :: "PolicyCondition array list"

record ProfileRegistry =
  Profiles :: "Profile gomap"
  Dependencies :: "string list gomap"
  LoadOrder :: "string list"

section \<open>The classifier client: parsing the model's answer\<close>

subsection \<open>More of package strings\<close>

text \<open>\<^verbatim>\<open>strings.Index\<close> and \<^verbatim>\<open>strings.LastIndex\<close>; the result \<open>-1\<close> is \<open>None\<close>.\<close>

fun Index :: "string \<Rightarrow> string \<Rightarrow> nat option" where
  "Index [] sub = (if sub = [] then Some 0 else None)"
| "Index (c # cs) sub =
     (if HasPrefix (c # cs) sub then Some 0 else map_option Suc (Index cs sub))"

definition LastIndex :: "string \<Rightarrow> string \<Rightarrow> nat option" where
  "LastIndex s sub =
     (case filter (\<lambda>i. HasPrefix (drop i s) sub) (rev [0..<Suc (length s)]) of
        [] \<Rightarrow> None
      | i # _ \<Rightarrow> Some i)"

text \<open>A Go string is a sequence of bytes; a \<^typ>\<open>char\<close> is one byte.\<close>

definition byte :: "char \<Rightarrow> nat" where
  "byte c = of_char c"

text \<open>\<^verbatim>\<open>strings.TrimSpace\<close> removes the leading and the trailing white space, as
  \<^verbatim>\<open>unicode.IsSpace\<close> defines it.  The white space code points are recognised by their UTF-8
  encodings: the six of ASCII in one byte; U+0085 and U+00A0 in two; U+1680, U+2000 to
  U+200A, U+2028, U+2029, U+202F, U+205F and U+3000 in three.  A byte that belongs to no
  such encoding ends the trimming, as the decoding of an invalid byte does in Go.\<close>

definition isSpace1 :: "char \<Rightarrow> bool" where
  "isSpace1 c \<longleftrightarrow> byte c \<in> {0x20, 0x09, 0x0A, 0x0B, 0x0C, 0x0D}"

definition isSpace2 :: "char \<Rightarrow> char \<Rightarrow> bool" where
  "isSpace2 a b \<longleftrightarrow> byte a = 0xC2 \<and> (byte b = 0x85 \<or> byte b = 0xA0)"

definition isSpace3 :: "char \<Rightarrow> char \<Rightarrow> char \<Rightarrow> bool" where
  "isSpace3 a b c \<longleftrightarrow>
     (byte a = 0xE1 \<and> byte b = 0x9A \<and> byte c = 0x80) \<or>
     (byte a = 0xE2 \<and> byte b = 0x80 \<and>
        ((0x80 \<le> byte c \<and> byte c \<le> 0x8A) \<or> byte c = 0xA8 \<or> byte c = 0xA9 \<or>
         byte c = 0xAF)) \<or>
     (byte a = 0xE2 \<and> byte b = 0x81 \<and> byte c = 0x9F) \<or>
     (byte a = 0xE3 \<and> byte b = 0x80 \<and> byte c = 0x80)"

fun TrimLeftSpace :: "string \<Rightarrow> string" where
  "TrimLeftSpace (a # b # c # s) =
     (if isSpace1 a then TrimLeftSpace (b # c # s)
      else if isSpace2 a b then TrimLeftSpace (c # s)
      else if isSpace3 a b c then TrimLeftSpace s
      else a # b # c # s)"
| "TrimLeftSpace [a, b] =
     (if isSpace1 a then TrimLeftSpace [b] else if isSpace2 a b then [] else [a, b])"
| "TrimLeftSpace [a] = (if isSpace1 a then [] else [a])"
| "TrimLeftSpace [] = []"

text \<open>The same from the end, on the reversed string: \<open>c\<close> is the last byte.\<close>

fun dropSpaceRev :: "string \<Rightarrow> string" where
  "dropSpaceRev (c # b # a # s) =
     (if isSpace1 c then dropSpaceRev (b # a # s)
      else if isSpace2 b c then dropSpaceRev (a # s)
      else if isSpace3 a b c then dropSpaceRev s
      else c # b # a # s)"
| "dropSpaceRev [c, b] =
     (if isSpace1 c then dropSpaceRev [b] else if isSpace2 b c then [] else [c, b])"
| "dropSpaceRev [c] = (if isSpace1 c then [] else [c])"
| "dropSpaceRev [] = []"

definition TrimSpace :: "string \<Rightarrow> string" where
  "TrimSpace s = rev (dropSpaceRev (rev (TrimLeftSpace s)))"

subsection \<open>\<^verbatim>\<open>json.Unmarshal\<close> into a map\<close>

definition isDigit :: "char \<Rightarrow> bool" where
  "isDigit c \<longleftrightarrow> 0x30 \<le> byte c \<and> byte c \<le> 0x39"

definition hexDigit :: "char \<Rightarrow> nat option" where
  "hexDigit c =
     (if 0x30 \<le> byte c \<and> byte c \<le> 0x39 then Some (byte c - 0x30)
      else if 0x61 \<le> byte c \<and> byte c \<le> 0x66 then Some (byte c - 0x61 + 10)
      else if 0x41 \<le> byte c \<and> byte c \<le> 0x46 then Some (byte c - 0x41 + 10)
      else None)"

text \<open>\<^verbatim>\<open>getu4\<close>: the number written by a backslash, the letter u and four hexadecimal
  digits at the head of the text.\<close>

definition getu4 :: "string \<Rightarrow> nat option" where
  "getu4 s =
     (case s of
        b # u # h1 # h2 # h3 # h4 # _ \<Rightarrow>
          if b = CHR 0x5C \<and> u = CHR ''u''
          then (case (hexDigit h1, hexDigit h2, hexDigit h3, hexDigit h4) of
                  (Some d1, Some d2, Some d3, Some d4) \<Rightarrow>
                    Some (d1 * 4096 + d2 * 256 + d3 * 16 + d4)
                | _ \<Rightarrow> None)
          else None
      | _ \<Rightarrow> None)"

text \<open>\<^verbatim>\<open>utf8.EncodeRune\<close>; a surrogate and a value beyond U+10FFFF are written as U+FFFD.\<close>

definition replacementChar :: string where
  "replacementChar = [char_of (0xEF::nat), char_of (0xBF::nat), char_of (0xBD::nat)]"

definition encodeRune :: "nat \<Rightarrow> string" where
  "encodeRune r =
     (if r < 0x80 then [char_of r]
      else if r < 0x800 then [char_of (0xC0 + r div 64), char_of (0x80 + r mod 64)]
      else if (0xD800 \<le> r \<and> r < 0xE000) \<or> r > 0x10FFFF then replacementChar
      else if r < 0x10000
      then [char_of (0xE0 + r div 4096), char_of (0x80 + (r div 64) mod 64),
            char_of (0x80 + r mod 64)]
      else [char_of (0xF0 + r div 262144), char_of (0x80 + (r div 4096) mod 64),
            char_of (0x80 + (r div 64) mod 64), char_of (0x80 + r mod 64)])"

text \<open>The number of bytes of the well-formed UTF-8 sequence at the head of the text, as
  \<^verbatim>\<open>utf8.DecodeRune\<close> accepts it; zero when there is none.\<close>

definition isCont :: "char \<Rightarrow> bool" where
  "isCont c \<longleftrightarrow> 0x80 \<le> byte c \<and> byte c \<le> 0xBF"

definition runeLen :: "string \<Rightarrow> nat" where
  "runeLen s =
     (case s of
        [] \<Rightarrow> 0
      | a # r \<Rightarrow>
          if byte a < 0x80 then 1
          else if 0xC2 \<le> byte a \<and> byte a \<le> 0xDF
          then (case r of b # _ \<Rightarrow> if isCont b then 2 else 0 | _ \<Rightarrow> 0)
          else if 0xE0 \<le> byte a \<and> byte a \<le> 0xEF
          then (case r of
                  b # c # _ \<Rightarrow>
                    if (if byte a = 0xE0 then 0xA0 else 0x80) \<le> byte b \<and>
                       byte b \<le> (if byte a = 0xED then 0x9F else 0xBF) \<and> isCont c
                    then 3 else 0
                | _ \<Rightarrow> 0)
          else if 0xF0 \<le> byte a \<and> byte a \<le> 0xF4
          then (case r of
                  b # c # d # _ \<Rightarrow>
                    if (if byte a = 0xF0 then 0x90 else 0x80) \<le> byte b \<and>
                       byte b \<le> (if byte a = 0xF4 then 0x8F else 0xBF) \<and> isCont c \<and> isCont d
                    then 4 else 0
                | _ \<Rightarrow> 0)
          else 0)"

text \<open>The escapes of one letter.\<close>

definition simpleEscape :: "char \<Rightarrow> char option" where
  "simpleEscape e =
     (if e = CHR 0x22 \<or> e = CHR 0x5C \<or> e = CHR ''/'' then Some e
      else if e = CHR ''b'' then Some (CHR 0x08)
      else if e = CHR ''f'' then Some (CHR 0x0C)
      else if e = CHR ''n'' then Some (CHR 0x0A)
      else if e = CHR ''r'' then Some (CHR 0x0D)
      else if e = CHR ''t'' then Some (CHR 0x09)
      else None)"

text \<open>\<^verbatim>\<open>unquote\<close>, on the text between the quotes of a string literal: \<open>None\<close> for what the
  scanner refuses (a control character, an unknown escape, a \<^verbatim>\<open>\u\<close> without four hexadecimal
  digits).  A pair of surrogate escapes is one code point; a surrogate alone, and every byte
  that is not part of well-formed UTF-8, becomes U+FFFD.\<close>

function unquote :: "string \<Rightarrow> string option" where
  "unquote [] = Some []"
| "unquote (c # cs) =
     (if c = CHR 0x5C
      then (case cs of
              [] \<Rightarrow> None
            | e # rest \<Rightarrow>
                if e = CHR ''u''
                then (case getu4 (c # cs) of
                        None \<Rightarrow> None
                      | Some rr \<Rightarrow>
                          if 0xD800 \<le> rr \<and> rr < 0xE000
                          then (case getu4 (drop 4 rest) of
                                  Some rr1 \<Rightarrow>
                                    if rr < 0xDC00 \<and> 0xDC00 \<le> rr1 \<and> rr1 < 0xE000
                                    then map_option
                                           ((@) (encodeRune ((rr - 0xD800) * 1024 +
                                                              (rr1 - 0xDC00) + 0x10000)))
                                           (unquote (drop 10 rest))
                                    else map_option ((@) replacementChar) (unquote (drop 4 rest))
                                | None \<Rightarrow>
                                    map_option ((@) replacementChar) (unquote (drop 4 rest)))
                          else map_option ((@) (encodeRune rr)) (unquote (drop 4 rest)))
                else (case simpleEscape e of
                        None \<Rightarrow> None
                      | Some b \<Rightarrow> map_option ((#) b) (unquote rest)))
      else if byte c < 0x20 \<or> c = CHR 0x22 then None
      else if byte c < 0x80 then map_option ((#) c) (unquote cs)
      else if runeLen (c # cs) = 0 then map_option ((@) replacementChar) (unquote cs)
      else map_option ((@) (take (runeLen (c # cs)) (c # cs)))
             (unquote (drop (runeLen (c # cs)) (c # cs))))"
  by pat_completeness auto
termination
  by (relation "measure length") auto

text \<open>The text of a string literal after its opening quote, up to the closing quote.\<close>

fun stringBody :: "string \<Rightarrow> string option" where
  "stringBody [] = None"
| "stringBody [c] = (if c = CHR 0x22 then Some [] else None)"
| "stringBody (c # e # rest) =
     (if c = CHR 0x22 then Some []
      else if c = CHR 0x5C then map_option (\<lambda>b. c # e # b) (stringBody rest)
      else map_option ((#) c) (stringBody (e # rest)))"

text \<open>A number literal: an optional minus sign, an integer part without a leading zero, an
  optional fraction and an optional exponent.  Its value is exact here; Go rounds it to
  the nearest \<^verbatim>\<open>float64\<close> (and refuses a number too large for one).\<close>

definition isNumChar :: "char \<Rightarrow> bool" where
  "isNumChar c \<longleftrightarrow> isDigit c \<or> c \<in> {CHR ''-'', CHR ''+'', CHR ''.'', CHR ''e'', CHR ''E''}"

definition digitsVal :: "string \<Rightarrow> nat" where
  "digitsVal ds = foldl (\<lambda>n c. n * 10 + (byte c - 0x30)) 0 ds"

definition parseNumber :: "string \<Rightarrow> real option" where
  "parseNumber lit =
     (let neg = (lit \<noteq> [] \<and> hd lit = CHR ''-'');
          r1 = (if neg then tl lit else lit);
          ip = takeWhile isDigit r1;
          r2 = dropWhile isDigit r1;
          hasFrac = (r2 \<noteq> [] \<and> hd r2 = CHR ''.'');
          fp = (if hasFrac then takeWhile isDigit (tl r2) else []);
          r3 = (if hasFrac then dropWhile isDigit (tl r2) else r2);
          hasExp = (r3 \<noteq> [] \<and> (hd r3 = CHR ''e'' \<or> hd r3 = CHR ''E''));
          r4 = (if hasExp then tl r3 else r3);
          eneg = (hasExp \<and> r4 \<noteq> [] \<and> hd r4 = CHR ''-'');
          ep = (if hasExp \<and> r4 \<noteq> [] \<and> (hd r4 = CHR ''-'' \<or> hd r4 = CHR ''+'')
                then tl r4 else r4);
          mantissa = real (digitsVal ip) + real (digitsVal fp) / 10 ^ length fp;
          magnitude = (if eneg then mantissa / 10 ^ digitsVal ep
                       else mantissa * 10 ^ digitsVal ep)
      in if ip = [] \<or> (length ip > 1 \<and> hd ip = CHR ''0'') then None
         else if hasFrac \<and> fp = [] then None
         else if hasExp \<and> (ep = [] \<or> \<not> list_all isDigit ep) then None
         else if \<not> hasExp \<and> r3 \<noteq> [] then None
         else Some (if neg then - magnitude else magnitude))"

datatype token =
    TokLBrace | TokRBrace | TokLBracket | TokRBracket | TokColon | TokComma
  | TokString string | TokNumber real | TokTrue | TokFalse | TokNull

text \<open>The scanner: white space between the tokens is a space, a tab, a carriage return or a
  line feed; any other byte that starts no token is a syntax error.\<close>

definition isJSONSpace :: "char \<Rightarrow> bool" where
  "isJSONSpace c \<longleftrightarrow> byte c \<in> {0x20, 0x09, 0x0D, 0x0A}"

function tokenize :: "string \<Rightarrow> token list option" where
  "tokenize [] = Some []"
| "tokenize (c # cs) =
     (if isJSONSpace c then tokenize cs
      else if c = CHR ''{'' then map_option ((#) TokLBrace) (tokenize cs)
      else if c = CHR ''}'' then map_option ((#) TokRBrace) (tokenize cs)
      else if c = CHR ''['' then map_option ((#) TokLBracket) (tokenize cs)
      else if c = CHR '']'' then map_option ((#) TokRBracket) (tokenize cs)
      else if c = CHR '':'' then map_option ((#) TokColon) (tokenize cs)
      else if c = CHR '','' then map_option ((#) TokComma) (tokenize cs)
      else if c = CHR 0x22
      then (case stringBody cs of
              None \<Rightarrow> None
            | Some body \<Rightarrow>
                (case unquote body of
                   None \<Rightarrow> None
                 | Some str \<Rightarrow>
                     map_option ((#) (TokString str))
                       (tokenize (drop (Suc (length body)) cs))))
      else if c = CHR ''-'' \<or> isDigit c
      then (case parseNumber (c # takeWhile isNumChar cs) of
              None \<Rightarrow> None
            | Some x \<Rightarrow> map_option ((#) (TokNumber x)) (tokenize (dropWhile isNumChar cs)))
      else if HasPrefix (c # cs) ''true'' then map_option ((#) TokTrue) (tokenize (drop 3 cs))
      else if HasPrefix (c # cs) ''false'' then map_option ((#) TokFalse) (tokenize (drop 4 cs))
      else if HasPrefix (c # cs) ''null'' then map_option ((#) TokNull) (tokenize (drop 3 cs))
      else None)"
  by pat_completeness auto
termination
  by (relation "measure length") (auto simp: less_Suc_eq_le length_dropWhile_le)

text \<open>The values are built on a stack, one frame for each array or object that is open: the
  elements read so far (the last one first), or the members read so far and the key that
  awaits its value.  A key that occurs twice keeps the value read last.  No more than 10000
  arrays and objects may be open at once.\<close>

datatype frame = InArray "json list" | InObject "(string \<times> json) list" string

datatype mode =
    WantValue | WantValueOrClose | WantKeyOrClose | WantKey | WantColon | WantCommaOrClose
  | Finished json

fun deliver :: "json \<Rightarrow> frame list \<Rightarrow> frame list \<times> mode" where
  "deliver v [] = ([], Finished v)"
| "deliver v (InArray es # st) = (InArray (v # es) # st, WantCommaOrClose)"
| "deliver v (InObject ms k # st) = (InObject (AList.update k v ms) k # st, WantCommaOrClose)"

definition maxNestingDepth :: nat where
  "maxNestingDepth = 10000"

definition startValue :: "token \<Rightarrow> frame list \<Rightarrow> (frame list \<times> mode) option" where
  "startValue t st =
     (case t of
        TokString s \<Rightarrow> Some (deliver (JStr s) st)
      | TokNumber x \<Rightarrow> Some (deliver (JNum x) st)
      | TokTrue \<Rightarrow> Some (deliver (JBool True) st)
      | TokFalse \<Rightarrow> Some (deliver (JBool False) st)
      | TokNull \<Rightarrow> Some (deliver JNull st)
      | TokLBrace \<Rightarrow>
          if length st < maxNestingDepth then Some (InObject [] [] # st, WantKeyOrClose)
          else None
      | TokLBracket \<Rightarrow>
          if length st < maxNestingDepth then Some (InArray [] # st, WantValueOrClose)
          else None
      | _ \<Rightarrow> None)"

definition closeArray :: "frame list \<Rightarrow> (frame list \<times> mode) option" where
  "closeArray st =
     (case st of InArray es # st' \<Rightarrow> Some (deliver (JArr (rev es)) st') | _ \<Rightarrow> None)"

definition closeObject :: "frame list \<Rightarrow> (frame list \<times> mode) option" where
  "closeObject st =
     (case st of InObject ms k # st' \<Rightarrow> Some (deliver (JObj ms) st') | _ \<Rightarrow> None)"

definition readKey :: "token \<Rightarrow> frame list \<Rightarrow> (frame list \<times> mode) option" where
  "readKey t st =
     (case (t, st) of
        (TokString k, InObject ms _ # st') \<Rightarrow> Some (InObject ms k # st', WantColon)
      | _ \<Rightarrow> None)"

definition step :: "token \<Rightarrow> frame list \<times> mode \<Rightarrow> (frame list \<times> mode) option" where
  "step t s =
     (case s of
        (st, WantValue) \<Rightarrow> startValue t st
      | (st, WantValueOrClose) \<Rightarrow> if t = TokRBracket then closeArray st else startValue t st
      | (st, WantKeyOrClose) \<Rightarrow> if t = TokRBrace then closeObject st else readKey t st
      | (st, WantKey) \<Rightarrow> readKey t st
      | (st, WantColon) \<Rightarrow> if t = TokColon then Some (st, WantValue) else None
      | (st, WantCommaOrClose) \<Rightarrow>
          (if t = TokComma
           then (case st of
                   InArray es # st' \<Rightarrow> Some (st, WantValue)
                 | InObject ms k # st' \<Rightarrow> Some (st, WantKey)
                 | [] \<Rightarrow> None)
           else if t = TokRBracket then closeArray st
           else if t = TokRBrace then closeObject st
           else None)
      | (st, Finished v) \<Rightarrow> None)"

fun run :: "token list \<Rightarrow> frame list \<times> mode \<Rightarrow> json option" where
  "run [] (st, m) = (case m of Finished v \<Rightarrow> Some v | _ \<Rightarrow> None)"
| "run (t # ts) s = (case step t s of None \<Rightarrow> None | Some s' \<Rightarrow> run ts s')"

definition decodeValue :: "string \<Rightarrow> json option" where
  "decodeValue data = (case tokenize data of None \<Rightarrow> None | Some ts \<Rightarrow> run ts ([], WantValue))"

text \<open>\<^verbatim>\<open>json.Unmarshal(data, &result)\<close> for a \<^verbatim>\<open>result\<close> of type
  \<^verbatim>\<open>map[string]interface{}\<close>: an object fills the map, \<^verbatim>\<open>null\<close> leaves it nil (every key
  is then missing), and any other value is an error, as a syntax error is.\<close>

definition Unmarshal :: "string \<Rightarrow> json gomap option" where
  "Unmarshal data =
     (case decodeValue data of
        Some (JObj m) \<Rightarrow> Some m
      | Some JNull \<Rightarrow> Some []
      | _ \<Rightarrow> None)"


subsection \<open>\<^verbatim>\<open>parseClassificationResponse\<close>\<close>

datatype parse_error =
    NoValidJSON
  | JSONParseError
  | InvalidAction
  | InvalidConfidence
  | ConfidenceOutOfRange

text \<open>The text handed to \<^verbatim>\<open>json.Unmarshal\<close>: the content of a fenced block opened by
  three backquotes and the word json if there is one and it is not blank, else the text from
  the first opening brace to the last closing brace.\<close>

definition fence_json :: string where
  "fence_json = [CHR 0x60, CHR 0x60, CHR 0x60] @ ''json''"

definition fence :: string where
  "fence = [CHR 0x60, CHR 0x60, CHR 0x60]"

definition extractJSON :: "string \<Rightarrow> parse_error + string" where
  "extractJSON response =
     (let jsonStr =
            (if Contains response fence_json
             then (case Index response fence_json of
                     Some start \<Rightarrow>
                       (let start = start + 7
                        in case Index (drop start response) fence of
                             Some end \<Rightarrow> TrimSpace (take end (drop start response))
                           | None \<Rightarrow> TrimSpace (drop start response))
                   | None \<Rightarrow> [])
             else [])
      in if jsonStr = []
         then (case (Index response ''{'', LastIndex response ''}'') of
                 (Some start, Some end) \<Rightarrow>
                   if start \<ge> end then Inl NoValidJSON
                   else Inr (take (end + 1 - start) (drop start response))
               | _ \<Rightarrow> Inl NoValidJSON)
         else Inr jsonStr)"

text \<open>The checks on the decoded object, and the construction of the response.  The profile
  contributes its identifier and nothing else.\<close>

definition stringLabels :: "json list \<Rightarrow> string list" where
  "stringLabels labelsList =
     concat (map (\<lambda>label. case label of JStr labelStr \<Rightarrow> [labelStr] | _ \<Rightarrow> []) labelsList)"

definition classificationFromJSON ::
  "nat \<Rightarrow> json gomap \<Rightarrow> Profile \<Rightarrow> parse_error + ClassificationResponse" where
  "classificationFromJSON processedAt result profile =
     (case map_of result ''action'' of
        Some (JStr action) \<Rightarrow>
          (case map_of result ''confidence'' of
             Some (JNum confidence) \<Rightarrow>
               (let reasoning = (case map_of result ''reasoning'' of
                                   Some (JStr r) \<Rightarrow> r
                                 | _ \<Rightarrow> ''No reasoning provided'')
                in if confidence < 0.0 \<or> confidence > 1.0 then Inl ConfidenceOutOfRange
                   else Inr \<lparr>ClassificationResponse.ProfileID = Profile.ID profile,
                             ClassificationResponse.Action = action,
                             ClassificationResponse.Confidence = confidence,
                             ClassificationResponse.Reasoning = reasoning,
                             ClassificationResponse.Labels = (case map_of result ''labels'' of
                                         Some (JArr labelsList) \<Rightarrow> stringLabels labelsList
                                       | _ \<Rightarrow> []),
                             ClassificationResponse.Metadata = (case map_of result ''metadata'' of
                                           Some (JObj metadataMap) \<Rightarrow> metadataMap
                                         | _ \<Rightarrow> []),
                             ClassificationResponse.ProcessedAt = processedAt\<rparr>)
           | _ \<Rightarrow> Inl InvalidConfidence)
      | _ \<Rightarrow> Inl InvalidAction)"

text \<open>The decoder is a parameter of the function (\<open>None\<close> when it returns an error), so
  that what is proved of the function holds for \<^verbatim>\<open>json.Unmarshal\<close> whatever it does with
  a text; \<open>Unmarshal\<close> above is the decoder of the concrete answers below.\<close>

definition parseClassificationResponse ::
  "(string \<Rightarrow> json gomap option) \<Rightarrow> nat \<Rightarrow> string \<Rightarrow> Profile \<Rightarrow>
   parse_error + ClassificationResponse" where
  "parseClassificationResponse unmarshal processedAt response profile =
     (case extractJSON response of
        Inl err \<Rightarrow> Inl err
      | Inr jsonStr \<Rightarrow>
          (case unmarshal jsonStr of
             None \<Rightarrow> Inl JSONParseError
           | Some result \<Rightarrow> classificationFromJSON processedAt result profile))"

subsection \<open>Validation as the specification words it\<close>

text \<open>The condition of C6, in the words of the specification: every required field of the
  profile is present, the action is in the profile's allowed set, and the confidence is a
  number in the profile's confidence range.\<close>

definition spec_valid :: "Profile \<Rightarrow> json gomap \<Rightarrow> bool" where
  "spec_valid profile result \<longleftrightarrow>
     list_all (\<lambda>f. map_of result f \<noteq> None)
       (RequiredFields (Validation (Response profile))) \<and>
     (case map_of result ''action'' of
        Some (JStr action) \<Rightarrow> action \<in> set (AllowedActions (Validation (Response profile)))
      | _ \<Rightarrow> False) \<and>
     (case map_of result ''confidence'' of
        Some (JNum confidence) \<Rightarrow>
          fst (ConfidenceRange (Validation (Response profile))) \<le> confidence \<and>
          confidence \<le> snd (ConfidenceRange (Validation (Response profile)))
      | _ \<Rightarrow> False)"

subsection \<open>Concrete inputs\<close>

definition profile_spam :: Profile where
  "profile_spam =
     \<lparr>ID = ''spam'', Version = ''1.0.0'', InheritsFrom = [], DependsOn = [],
      ConditionalExecution = None, Model = ''qwen2.5:7b'',
      ModelParams = \<lparr>Temperature = 0.1, MaxTokens = 1000, TimeoutSeconds = 30,
                      TopP = 0, TopK = 0\<rparr>,
      Response = \<lparr>Schema = ''{}'',
                   Validation = \<lparr>RequiredFields = [''category'', ''confidence'', ''action''],
                                  ConfidenceRange = (0, 0.5),
                                  AllowedActions = [''none'', ''star'', ''archive'']\<rparr>\<rparr>,
      System = ''Classify the email.'', FewShot = Exact [],
      Policy = \<lparr>Conditions = Exact []\<rparr>,
      CreatedAt = 0, UpdatedAt = 0\<rparr>"

definition object_delete :: "json gomap" where
  "object_delete = [(''action'', JStr ''delete''), (''confidence'', JNum 0.9)]"

text \<open>An answer of the model with its JSON text in a fenced block, and the same profile with
  a validation that asks for nothing.\<close>

definition quoted :: "string \<Rightarrow> string" where
  "quoted s = [CHR 0x22] @ s @ [CHR 0x22]"

definition object_text :: string where
  "object_text =
     ''{'' @ quoted ''action'' @ '': '' @ quoted ''delete'' @ '', '' @
     quoted ''confidence'' @ '': 0.9}''"

definition answer_text :: string where
  "answer_text =
     ''Here is the classification:'' @ [CHR 0x0A] @ fence_json @ [CHR 0x0A] @ object_text @
     [CHR 0x0A] @ fence @ [CHR 0x0A]"

definition profile_open :: Profile where
  "profile_open =
     profile_spam\<lparr>Response :=
       \<lparr>Schema = ''{}'',
        Validation = \<lparr>RequiredFields = [], ConfidenceRange = (0, 1),
                       AllowedActions = [''delete'']\<rparr>\<rparr>\<rparr>"

subsection \<open>Which answers are accepted\<close>

lemma extract_answer_text: "extractJSON answer_text = Inr object_text"
  by code_simp

lemma unmarshal_object_text: "Unmarshal object_text = Some object_delete"
  by code_simp

lemma not_valid: "\<not> spec_valid profile_spam object_delete"
  by code_simp

lemma classificationFromJSON_succeeds_iff:
  "(\<exists>c. classificationFromJSON t result profile = Inr c) \<longleftrightarrow>
     (\<exists>action. map_of result ''action'' = Some (JStr action)) \<and>
     (\<exists>confidence. map_of result ''confidence'' = Some (JNum confidence) \<and>
                   0 \<le> confidence \<and> confidence \<le> 1)"
proof (cases "map_of result ''action''")
  case None
  then show ?thesis by (simp add: classificationFromJSON_def)
next
  case (Some a)
  show ?thesis
  proof (cases "\<exists>action. a = JStr action")
    case False
    with Some show ?thesis by (cases a) (simp_all add: classificationFromJSON_def)
  next
    case True
    then obtain action where a: "a = JStr action" by blast
    show ?thesis
    proof (cases "map_of result ''confidence''")
      case None
      with Some a show ?thesis by (simp add: classificationFromJSON_def)
    next
      case c: (Some cv)
      show ?thesis
      proof (cases "\<exists>confidence. cv = JNum confidence")
        case False
        with Some a c show ?thesis by (cases cv) (simp_all add: classificationFromJSON_def)
      next
        case True
        then obtain confidence where cv: "cv = JNum confidence" by blast
        with Some a c show ?thesis
          by (simp add: classificationFromJSON_def Let_def not_less[symmetric])
      qed
    qed
  qed
qed

lemma classificationFromJSON_profile:
  assumes "Profile.ID profile' = Profile.ID profile"
  shows "classificationFromJSON t result profile' = classificationFromJSON t result profile"
  unfolding classificationFromJSON_def assms by (rule refl)

text \<open>
  C6 as stated fails: an answer without the required field \<^verbatim>\<open>category\<close>, with an action
  outside the profile's allowed actions and a confidence outside the profile's confidence
  range is accepted.
\<close>

theorem profile_validation_counterexample:
  "parseClassificationResponse Unmarshal 0 answer_text profile_spam =
     Inr (answer ''spam'' ''delete'' 0.9
            \<lparr>ClassificationResponse.Reasoning := ''No reasoning provided''\<rparr>) \<and>
   \<not> spec_valid profile_spam object_delete \<and>
   extractJSON answer_text = Inr object_text \<and>
   Unmarshal object_text = Some object_delete"
proof -
  have c: "classificationFromJSON 0 object_delete profile_spam =
     Inr (answer ''spam'' ''delete'' 0.9
            \<lparr>ClassificationResponse.Reasoning := ''No reasoning provided''\<rparr>)"
    by (simp add: classificationFromJSON_def object_delete_def profile_spam_def answer_def)
  show ?thesis using extract_answer_text not_valid unmarshal_object_text c
    by (simp add: parseClassificationResponse_def)
qed

text \<open>
  C6 (as amended).  For an answer from which a JSON text is extracted and decoded to an
  object, parsing succeeds exactly when the field \<^verbatim>\<open>action\<close> is present and a string and the
  field \<^verbatim>\<open>confidence\<close> is present and a number between 0 and 1; every other answer is
  rejected with an error.  The required fields, the allowed actions and the confidence range
  of the profile are not consulted: a profile with the same identifier and any other
  validation gives the same result.
\<close>

theorem parseClassificationResponse_succeeds_iff:
  assumes "extractJSON response = Inr jsonStr" and "unmarshal jsonStr = Some result"
  shows "((\<exists>c. parseClassificationResponse unmarshal t response profile = Inr c) \<longleftrightarrow>
            (\<exists>action. map_of result ''action'' = Some (JStr action)) \<and>
            (\<exists>confidence. map_of result ''confidence'' = Some (JNum confidence) \<and>
                          0 \<le> confidence \<and> confidence \<le> 1)) \<and>
         (Profile.ID profile' = Profile.ID profile \<longrightarrow>
            parseClassificationResponse unmarshal t response profile' =
            parseClassificationResponse unmarshal t response profile)"
  using assms classificationFromJSON_succeeds_iff[of t result profile]
    classificationFromJSON_profile[of profile' profile t result]
  by (simp add: parseClassificationResponse_def)

theorem parseClassificationResponse_succeeds_iff_witness:
  "extractJSON answer_text = Inr object_text \<and> Unmarshal object_text = Some object_delete \<and>
   map_of object_delete ''action'' = Some (JStr ''delete'') \<and>
   map_of object_delete ''confidence'' = Some (JNum 0.9) \<and>
   Profile.ID profile_open = Profile.ID profile_spam \<and>
   Validation (Response profile_open) \<noteq> Validation (Response profile_spam) \<and>
   parseClassificationResponse Unmarshal 0 answer_text profile_spam =
     Inr (answer ''spam'' ''delete'' 0.9
            \<lparr>ClassificationResponse.Reasoning := ''No reasoning provided''\<rparr>) \<and>
   parseClassificationResponse Unmarshal 0 answer_text profile_open =
     parseClassificationResponse Unmarshal 0 answer_text profile_spam"
proof -
  have i: "Profile.ID profile_open = Profile.ID profile_spam"
    by (simp add: profile_open_def)
  have v: "Validation (Response profile_open) \<noteq> Validation (Response profile_spam)"
    by (simp add: profile_open_def profile_spam_def)
  have a: "map_of object_delete ''action'' = Some (JStr ''delete'')"
    and c: "map_of object_delete ''confidence'' = Some (JNum 0.9)"
    by (simp_all add: object_delete_def)
  note th = parseClassificationResponse_succeeds_iff[of answer_text object_text Unmarshal
      object_delete 0 profile_spam profile_open, OF extract_answer_text unmarshal_object_text]
  have "classificationFromJSON 0 object_delete profile_spam =
     Inr (answer ''spam'' ''delete'' 0.9
            \<lparr>ClassificationResponse.Reasoning := ''No reasoning provided''\<rparr>)"
    by (simp add: classificationFromJSON_def object_delete_def profile_spam_def answer_def)
  then have "parseClassificationResponse Unmarshal 0 answer_text profile_spam =
     Inr (answer ''spam'' ''delete'' 0.9
            \<lparr>ClassificationResponse.Reasoning := ''No reasoning provided''\<rparr>)"
    using extract_answer_text unmarshal_object_text by (simp add: parseClassificationResponse_def)
  moreover have "parseClassificationResponse Unmarshal 0 answer_text profile_open =
                 parseClassificationResponse Unmarshal 0 answer_text profile_spam"
    using th i by simp
  ultimately show ?thesis using extract_answer_text unmarshal_object_text a c i v by simp
qed

section \<open>The profile loader (package profile)\<close>

text \<open>The loader, with the memory that the slices of its profiles point into.\<close>

record Loader =
  directory :: string
  registry :: ProfileRegistry
  cache :: "Profile gomap"
  heap :: memory

datatype load_error =
    FindProfileFilesError
  | ProfileIDRequired
  | ProfileVersionRequired
  | ProfileModelRequired
  | ProfileSystemRequired
  | ConfidenceRangeBounds
  | ConfidenceRangeOrder
  | TemperatureRange
  | MaxTokensNotPositive
  | TimeoutNotPositive
  | DependencyNotFound string string
  | CircularDependency
  | ParentNotFound string string
  | NilProfile

definition NewLoader :: "string \<Rightarrow> Loader" where
  "NewLoader dir =
     \<lparr>directory = dir,
      registry = \<lparr>Profiles = [], Dependencies = [], LoadOrder = []\<rparr>,
      cache = [],
      heap = \<lparr>fewShotArrays = [], conditionArrays = []\<rparr>\<rparr>"

subsection \<open>\<^verbatim>\<open>validateProfile\<close> and \<^verbatim>\<open>loadProfileFile\<close>\<close>

definition validateProfile :: "Profile \<Rightarrow> load_error option" where
  "validateProfile profile =
     (if Profile.ID profile = [] then Some ProfileIDRequired
      else if Profile.Version profile = [] then Some ProfileVersionRequired
      else if Model profile = [] then Some ProfileModelRequired
      else if System profile = [] then Some ProfileSystemRequired
      else if fst (ConfidenceRange (Validation (Response profile))) < 0 \<or>
              snd (ConfidenceRange (Validation (Response profile))) > 1
      then Some ConfidenceRangeBounds
      else if fst (ConfidenceRange (Validation (Response profile))) \<ge>
              snd (ConfidenceRange (Validation (Response profile)))
      then Some ConfidenceRangeOrder
      else if Temperature (ModelParams profile) < 0 \<or> Temperature (ModelParams profile) > 2
      then Some TemperatureRange
      else if MaxTokens (ModelParams profile) \<le> 0 then Some MaxTokensNotPositive
      else if TimeoutSeconds (ModelParams profile) \<le> 0 then Some TimeoutNotPositive
      else None)"

text \<open>A file of the directory is its path and what \<^verbatim>\<open>os.ReadFile\<close> followed by
  \<^verbatim>\<open>yaml.Unmarshal\<close> gives for it: a profile, or \<open>None\<close> when either fails.\<close>

datatype file_error = ReadOrParseError | ProfileInvalid load_error

definition loadProfileFile :: "runtime \<Rightarrow> Profile option \<Rightarrow> file_error + Profile" where
  "loadProfileFile rt decoded =
     (case decoded of
        None \<Rightarrow> Inl ReadOrParseError
      | Some profile \<Rightarrow>
          (let profile = profile\<lparr>CreatedAt := now rt, UpdatedAt := now rt\<rparr>
           in case validateProfile profile of
                Some err \<Rightarrow> Inl (ProfileInvalid err)
              | None \<Rightarrow> Inr profile))"

fun HasSuffix :: "string \<Rightarrow> string \<Rightarrow> bool" where
  "HasSuffix s suffix = HasPrefix (rev s) (rev suffix)"

definition findProfileFiles ::
  "(string \<times> Profile option) list option \<Rightarrow> (string \<times> Profile option) list option" where
  "findProfileFiles walk =
     map_option (filter (\<lambda>(path, decoded). HasSuffix path ''.yaml'' \<or> HasSuffix path ''.yml''))
       walk"

subsection \<open>\<^verbatim>\<open>mergeWithParent\<close>\<close>

text \<open>The function returns no error on any path; the model returns the child as the
  function leaves it, and the memory.  Its five commented blocks (system prompt, model
  parameters, few-shot examples, policy conditions, response validation) are five steps,
  applied in the order of the source.  The two \<^verbatim>\<open>append\<close>s take the parent's slice as their
  first argument: with room in the parent's array, the child's elements are written into it.
  Every field of the parent is read before the matching field of the child is written.\<close>

definition mergeSystem :: "Profile \<Rightarrow> Profile \<Rightarrow> Profile" where
  "mergeSystem child parent =
     (if System child = [] then child\<lparr>System := System parent\<rparr>
      else if System parent \<noteq> []
      then child\<lparr>System := System parent @ [CHR 0x0A, CHR 0x0A] @ System child\<rparr>
      else child)"

definition mergeModelParams :: "Profile \<Rightarrow> Profile \<Rightarrow> Profile" where
  "mergeModelParams child parent =
     child\<lparr>ModelParams := (ModelParams child)
       \<lparr>Temperature := (if Temperature (ModelParams child) = 0
                         then Temperature (ModelParams parent)
                         else Temperature (ModelParams child)),
        MaxTokens := (if MaxTokens (ModelParams child) = 0
                       then MaxTokens (ModelParams parent)
                       else MaxTokens (ModelParams child)),
        TimeoutSeconds := (if TimeoutSeconds (ModelParams child) = 0
                            then TimeoutSeconds (ModelParams parent)
                            else TimeoutSeconds (ModelParams child))\<rparr>\<rparr>"

definition mergeFewShot ::
  "runtime \<Rightarrow> Profile \<Rightarrow> Profile \<Rightarrow> memory \<Rightarrow> Profile \<times> memory" where
  "mergeFewShot rt child parent mem =
     (if sliceLen (FewShot parent) > 0
      then (case appendSlice rt (fewShotArrays mem) (FewShot parent)
                   (sliceElems (fewShotArrays mem) (FewShot child)) of
              (s, arrays) \<Rightarrow> (child\<lparr>FewShot := s\<rparr>, mem\<lparr>fewShotArrays := arrays\<rparr>))
      else (child, mem))"

definition mergePolicy ::
  "runtime \<Rightarrow> Profile \<Rightarrow> Profile \<Rightarrow> memory \<Rightarrow> Profile \<times> memory" where
  "mergePolicy rt child parent mem =
     (if sliceLen (Conditions (Policy parent)) > 0
      then (case appendSlice rt (conditionArrays mem) (Conditions (Policy parent))
                   (sliceElems (conditionArrays mem) (Conditions (Policy child))) of
              (s, arrays) \<Rightarrow>
                (child\<lparr>Policy := (Policy child)\<lparr>Conditions := s\<rparr>\<rparr>,
                 mem\<lparr>conditionArrays := arrays\<rparr>))
      else (child, mem))"

definition mergeValidation :: "Profile \<Rightarrow> Profile \<Rightarrow> Profile" where
  "mergeValidation child parent =
     child\<lparr>Response := (Response child)
       \<lparr>Validation := (Validation (Response child))
          \<lparr>RequiredFields :=
             (if length (RequiredFields (Validation (Response child))) = 0
              then RequiredFields (Validation (Response parent))
              else RequiredFields (Validation (Response child))),
           ConfidenceRange :=
             (if fst (ConfidenceRange (Validation (Response child))) = 0 \<and>
                 snd (ConfidenceRange (Validation (Response child))) = 0
              then ConfidenceRange (Validation (Response parent))
              else ConfidenceRange (Validation (Response child)))\<rparr>\<rparr>\<rparr>"

definition mergeWithParent ::
  "runtime \<Rightarrow> Profile \<Rightarrow> Profile \<Rightarrow> memory \<Rightarrow> Profile \<times> memory" where
  "mergeWithParent rt child parent mem =
     (let child = mergeSystem child parent;
          child = mergeModelParams child parent;
          (child, mem) = mergeFewShot rt child parent mem;
          (child, mem) = mergePolicy rt child parent mem;
          child = mergeValidation child parent
      in (child, mem))"

subsection \<open>\<^verbatim>\<open>topologicalSort\<close>\<close>

text \<open>The second loop: one edge per entry of each dependency list, or the error for the first
  dependency met that is not a profile.\<close>

fun addEdges ::
  "Profile gomap \<Rightarrow> string \<Rightarrow> string list \<Rightarrow> string list gomap \<times> int gomap \<Rightarrow>
   load_error + string list gomap \<times> int gomap" where
  "addEdges profiles pid [] g = Inr g"
| "addEdges profiles pid (dep # deps) (adjList, inDegree) =
     (if map_of profiles dep = None then Inl (DependencyNotFound dep pid)
      else addEdges profiles pid deps
             (AList.update dep (getList adjList dep @ [pid]) adjList,
              AList.update pid (getInt inDegree pid + 1) inDegree))"

fun buildGraph ::
  "Profile gomap \<Rightarrow> string list gomap \<Rightarrow> string list \<Rightarrow> string list gomap \<times> int gomap \<Rightarrow>
   load_error + string list gomap \<times> int gomap" where
  "buildGraph profiles dependencies [] g = Inr g"
| "buildGraph profiles dependencies (pid # pids) g =
     (case addEdges profiles pid (getList dependencies pid) g of
        Inl err \<Rightarrow> Inl err
      | Inr g' \<Rightarrow> buildGraph profiles dependencies pids g')"

text \<open>The loop over the neighbours of the node taken from the queue.\<close>

fun relax :: "string list \<Rightarrow> int gomap \<times> string list \<Rightarrow> int gomap \<times> string list" where
  "relax [] s = s"
| "relax (neighbor # ns) (inDegree, queue) =
     (let inDegree = AList.update neighbor (getInt inDegree neighbor - 1) inDegree
      in relax ns (inDegree,
                   if getInt inDegree neighbor = 0 then queue @ [neighbor] else queue))"

text \<open>The queue loop ends: each turn takes one node from the queue, and a node enters the
  queue only when its counter goes from one to zero, which lowers the number of positive
  counters.\<close>

definition posCount :: "int gomap \<Rightarrow> nat" where
  "posCount m = length (filter (\<lambda>kv. 0 < snd kv) m)"

lemma posCount_update_le:
  "v \<le> getInt m k \<Longrightarrow> posCount (AList.update k v m) \<le> posCount m"
  by (induction m) (auto simp: posCount_def getInt_def)

lemma posCount_update_zero:
  "getInt m k = 1 \<Longrightarrow> Suc (posCount (AList.update k 0 m)) = posCount m"
  by (induction m) (auto simp: posCount_def getInt_def)

lemma relax_measure:
  "length (snd (relax ns (m, q))) + posCount (fst (relax ns (m, q))) \<le> length q + posCount m"
proof (induction ns arbitrary: m q)
  case Nil
  then show ?case by simp
next
  case (Cons n ns)
  let ?m = "AList.update n (getInt m n - 1) m"
  show ?case
  proof (cases "getInt m n = 1")
    case True
    then have "Suc (posCount ?m) = posCount m" using posCount_update_zero[of m n] by simp
    moreover have "getInt ?m n = 0" using True by (simp add: getInt_update)
    ultimately show ?thesis using Cons[of ?m "q @ [n]"] by (simp add: Let_def)
  next
    case False
    have "posCount ?m \<le> posCount m" by (rule posCount_update_le) simp
    moreover have "getInt ?m n \<noteq> 0" using False by (simp add: getInt_update)
    ultimately show ?thesis using Cons[of ?m q] by (simp add: Let_def)
  qed
qed

function processQueue ::
  "string list gomap \<Rightarrow> int gomap \<Rightarrow> string list \<Rightarrow> string list \<Rightarrow> string list" where
  "processQueue adjList inDegree [] result = result"
| "processQueue adjList inDegree (current # queue) result =
     processQueue adjList
       (fst (relax (getList adjList current) (inDegree, queue)))
       (snd (relax (getList adjList current) (inDegree, queue)))
       (result @ [current])"
  by pat_completeness auto
termination
proof (relation "measure (\<lambda>(adjList, inDegree, queue, result). length queue + posCount inDegree)")
  show "wf (measure (\<lambda>(adjList, inDegree, queue, result). length queue + posCount inDegree))"
    by simp
next
  fix adjList :: "string list gomap" and inDegree :: "int gomap"
    and current :: string and queue result :: "string list"
  show "((adjList, fst (relax (getList adjList current) (inDegree, queue)),
          snd (relax (getList adjList current) (inDegree, queue)), result @ [current]),
         (adjList, inDegree, current # queue, result))
        \<in> measure (\<lambda>(adjList, inDegree, queue, result). length queue + posCount inDegree)"
    using relax_measure[of "getList adjList current" inDegree queue] by simp
qed

definition topologicalSort ::
  "runtime \<Rightarrow> Loader \<Rightarrow> Profile gomap \<Rightarrow> load_error + string list" where
  "topologicalSort rt l profiles =
     (let pids = rangeOrder rt RangeProfilesInit (map fst profiles);
          inDegree = fold (\<lambda>pid m. AList.update pid 0 m) pids [];
          adjList = fold (\<lambda>pid m. AList.update pid [] m) pids []
      in case buildGraph profiles (Dependencies (registry l))
                (rangeOrder rt RangeDependencies (map fst (Dependencies (registry l))))
                (adjList, inDegree) of
           Inl err \<Rightarrow> Inl err
         | Inr (adjList, inDegree) \<Rightarrow>
             (let queue = filter (\<lambda>pid. getInt inDegree pid = 0)
                            (rangeOrder rt RangeInDegree (map fst inDegree));
                  result = processQueue adjList inDegree queue []
              in if length result \<noteq> length profiles then Inl CircularDependency
                 else Inr result))"

subsection \<open>\<^verbatim>\<open>buildDependencyGraph\<close>, \<^verbatim>\<open>resolveInheritance\<close> and \<^verbatim>\<open>LoadAll\<close>\<close>

definition profileDeps :: "Profile \<Rightarrow> string list" where
  "profileDeps profile =
     (if InheritsFrom profile \<noteq> [] then [InheritsFrom profile] else []) @ DependsOn profile"

fun recordDeps :: "Profile gomap \<Rightarrow> string list \<Rightarrow> string list gomap \<Rightarrow> string list gomap"
  where
  "recordDeps profiles [] dependencies = dependencies"
| "recordDeps profiles (pid # pids) dependencies =
     recordDeps profiles pids
       (case map_of profiles pid of
          Some profile \<Rightarrow> AList.update pid (profileDeps profile) dependencies
        | None \<Rightarrow> dependencies)"

definition buildDependencyGraph ::
  "runtime \<Rightarrow> Loader \<Rightarrow> Profile gomap \<Rightarrow> load_error option \<times> Loader" where
  "buildDependencyGraph rt l profiles =
     (let l = l\<lparr>registry := (registry l)
                  \<lparr>Dependencies :=
                     recordDeps profiles (rangeOrder rt RangeProfiles (map fst profiles))
                       (Dependencies (registry l))\<rparr>\<rparr>
      in case topologicalSort rt l profiles of
           Inl err \<Rightarrow> (Some err, l)
         | Inr loadOrder \<Rightarrow> (None, l\<lparr>registry := (registry l)\<lparr>LoadOrder := loadOrder\<rparr>\<rparr>))"

text \<open>The profiles are reached through pointers, so a merge is seen by every later
  lookup of the same identifier: the map is updated in place.  A load order naming an
  identifier without a profile would dereference a nil pointer.  When the function returns
  an error, \<^verbatim>\<open>LoadAll\<close> drops the profiles, and the arrays that the merges made with them: the
  loader keeps the memory it had.\<close>

fun resolveInheritance ::
  "runtime \<Rightarrow> string list \<Rightarrow> Profile gomap \<Rightarrow> memory \<Rightarrow>
   load_error + Profile gomap \<times> memory" where
  "resolveInheritance rt [] profiles mem = Inr (profiles, mem)"
| "resolveInheritance rt (pid # pids) profiles mem =
     (case map_of profiles pid of
        None \<Rightarrow> Inl NilProfile
      | Some profile \<Rightarrow>
          if InheritsFrom profile \<noteq> []
          then (case map_of profiles (InheritsFrom profile) of
                  None \<Rightarrow> Inl (ParentNotFound (InheritsFrom profile) pid)
                | Some parent \<Rightarrow>
                    (case mergeWithParent rt profile parent mem of
                       (merged, mem') \<Rightarrow>
                         resolveInheritance rt pids (AList.update pid merged profiles) mem'))
          else resolveInheritance rt pids profiles mem)"

fun loadFiles ::
  "runtime \<Rightarrow> (string \<times> Profile option) list \<Rightarrow> Profile gomap \<Rightarrow> Profile gomap" where
  "loadFiles rt [] profiles = profiles"
| "loadFiles rt ((path, decoded) # files) profiles =
     loadFiles rt files
       (case loadProfileFile rt decoded of
          Inl err \<Rightarrow> profiles
        | Inr profile \<Rightarrow> AList.update (Profile.ID profile) profile profiles)"

definition LoadAll ::
  "runtime \<Rightarrow> (string \<times> Profile option) list option \<Rightarrow> Loader \<Rightarrow>
   load_error option \<times> Loader" where
  "LoadAll rt walk l =
     (let l = l\<lparr>registry := \<lparr>Profiles = [], Dependencies = [], LoadOrder = []\<rparr>, cache := []\<rparr>
      in case findProfileFiles walk of
           None \<Rightarrow> (Some FindProfileFilesError, l)
         | Some files \<Rightarrow>
             (let profiles = loadFiles rt files []
              in case buildDependencyGraph rt l profiles of
                   (Some err, l) \<Rightarrow> (Some err, l)
                 | (None, l) \<Rightarrow>
                     (case resolveInheritance rt (LoadOrder (registry l)) profiles (heap l) of
                        Inl err \<Rightarrow> (Some err, l)
                      | Inr (profiles, mem) \<Rightarrow>
                          (None, l\<lparr>registry := (registry l)\<lparr>Profiles := profiles\<rparr>,
                                   heap := mem\<rparr>))))"

subsection \<open>Properties of \<^verbatim>\<open>append\<close>\<close>

lemma sliceElems_length: "validSlice mem s \<Longrightarrow> length (sliceElems mem s) = sliceLen s"
  by (cases s) auto

lemma sliceElems_empty: "validSlice mem s \<Longrightarrow> sliceLen s = 0 \<Longrightarrow> sliceElems mem s = []"
  by (cases s) auto

text \<open>Read when \<^verbatim>\<open>append\<close> returns, its result is the elements of the slice followed by the
  new ones.\<close>

lemma appendSlice_elems:
  assumes v: "validSlice mem s" and a: "appendSlice rt mem s xs = (s', mem')"
  shows "sliceElems mem' s' = sliceElems mem s @ xs"
proof (cases "xs = []")
  case True
  with a show ?thesis by (simp add: appendSlice_def)
next
  case ne: False
  show ?thesis
  proof (cases "sliceLen s + length xs \<le> sliceCap mem s")
    case True
    show ?thesis
    proof (cases s)
      case (Exact ys)
      with True ne show ?thesis by simp
    next
      case (Prefix b n)
      from v Prefix have b: "b < length mem" and n: "n \<le> length (cells (mem ! b))" by simp_all
      from a ne True Prefix have s': "s' = Prefix b (n + length xs)"
        and m': "mem' = mem[b := (mem ! b)\<lparr>cells := take n (cells (mem ! b)) @ xs @
                                   drop (n + length xs) (cells (mem ! b))\<rparr>]"
        by (simp_all add: appendSlice_def)
      have "length (take n (cells (mem ! b))) = n" using n by simp
      then have "take (n + length xs)
                   (take n (cells (mem ! b)) @ xs @ drop (n + length xs) (cells (mem ! b))) =
                 take n (cells (mem ! b)) @ xs"
        by (simp add: take_append del: length_take)
      then show ?thesis using s' m' b Prefix by simp
    qed
  next
    case False
    from a ne False have s': "s' = Prefix (length mem) (sliceLen s + length xs)"
      and m': "mem' = mem @ [\<lparr>cells = sliceElems mem s @ xs,
                               capacity = max (sliceLen s + length xs)
                                 (growCap rt (sliceCap mem s) (sliceLen s + length xs))\<rparr>]"
      by (simp_all add: appendSlice_def)
    show ?thesis using s' m' sliceElems_length[OF v] by simp
  qed
qed

subsection \<open>Properties of the merge\<close>

lemma mergeSystem_fields:
  "ModelParams (mergeSystem c p) = ModelParams c"
  "FewShot (mergeSystem c p) = FewShot c"
  "Policy (mergeSystem c p) = Policy c"
  "InheritsFrom (mergeSystem c p) = InheritsFrom c"
  "DependsOn (mergeSystem c p) = DependsOn c"
  "Profile.ID (mergeSystem c p) = Profile.ID c"
  by (simp_all add: mergeSystem_def)

lemma mergeModelParams_fields:
  "System (mergeModelParams c p) = System c"
  "FewShot (mergeModelParams c p) = FewShot c"
  "Policy (mergeModelParams c p) = Policy c"
  "InheritsFrom (mergeModelParams c p) = InheritsFrom c"
  "DependsOn (mergeModelParams c p) = DependsOn c"
  "Profile.ID (mergeModelParams c p) = Profile.ID c"
  by (simp_all add: mergeModelParams_def)

lemma mergeFewShot_fields:
  "System (fst (mergeFewShot rt c p mem)) = System c"
  "ModelParams (fst (mergeFewShot rt c p mem)) = ModelParams c"
  "Policy (fst (mergeFewShot rt c p mem)) = Policy c"
  "InheritsFrom (fst (mergeFewShot rt c p mem)) = InheritsFrom c"
  "DependsOn (fst (mergeFewShot rt c p mem)) = DependsOn c"
  "Profile.ID (fst (mergeFewShot rt c p mem)) = Profile.ID c"
  "conditionArrays (snd (mergeFewShot rt c p mem)) = conditionArrays mem"
  by (simp_all add: mergeFewShot_def split: prod.splits)

lemma mergePolicy_fields:
  "System (fst (mergePolicy rt c p mem)) = System c"
  "ModelParams (fst (mergePolicy rt c p mem)) = ModelParams c"
  "FewShot (fst (mergePolicy rt c p mem)) = FewShot c"
  "InheritsFrom (fst (mergePolicy rt c p mem)) = InheritsFrom c"
  "DependsOn (fst (mergePolicy rt c p mem)) = DependsOn c"
  "Profile.ID (fst (mergePolicy rt c p mem)) = Profile.ID c"
  "fewShotArrays (snd (mergePolicy rt c p mem)) = fewShotArrays mem"
  by (simp_all add: mergePolicy_def split: prod.splits)

lemma mergeValidation_fields:
  "System (mergeValidation c p) = System c"
  "ModelParams (mergeValidation c p) = ModelParams c"
  "FewShot (mergeValidation c p) = FewShot c"
  "Policy (mergeValidation c p) = Policy c"
  "InheritsFrom (mergeValidation c p) = InheritsFrom c"
  "DependsOn (mergeValidation c p) = DependsOn c"
  "Profile.ID (mergeValidation c p) = Profile.ID c"
  by (simp_all add: mergeValidation_def)

lemmas merge_fields =
  mergeSystem_fields mergeModelParams_fields mergeFewShot_fields mergePolicy_fields
  mergeValidation_fields

text \<open>The steps of the merge, one after the other.\<close>

lemma mergeWithParent_steps:
  "mergeWithParent rt child parent mem =
     (mergeValidation
        (fst (mergePolicy rt
                (fst (mergeFewShot rt (mergeModelParams (mergeSystem child parent) parent)
                        parent mem))
                parent
                (snd (mergeFewShot rt (mergeModelParams (mergeSystem child parent) parent)
                        parent mem))))
        parent,
      snd (mergePolicy rt
             (fst (mergeFewShot rt (mergeModelParams (mergeSystem child parent) parent)
                     parent mem))
             parent
             (snd (mergeFewShot rt (mergeModelParams (mergeSystem child parent) parent)
                     parent mem))))"
  by (simp add: mergeWithParent_def Let_def split: prod.splits)

lemma mergeWithParent_System:
  "System (fst (mergeWithParent rt child parent mem)) =
     (if System child = [] then System parent
      else if System parent \<noteq> [] then System parent @ [CHR 0x0A, CHR 0x0A] @ System child
      else System child)"
  by (simp add: mergeWithParent_steps merge_fields) (simp add: mergeSystem_def)

lemma mergeWithParent_ModelParams:
  "ModelParams (fst (mergeWithParent rt child parent mem)) =
     (ModelParams child)
       \<lparr>Temperature := (if Temperature (ModelParams child) = 0
                         then Temperature (ModelParams parent)
                         else Temperature (ModelParams child)),
        MaxTokens := (if MaxTokens (ModelParams child) = 0
                       then MaxTokens (ModelParams parent)
                       else MaxTokens (ModelParams child)),
        TimeoutSeconds := (if TimeoutSeconds (ModelParams child) = 0
                            then TimeoutSeconds (ModelParams parent)
                            else TimeoutSeconds (ModelParams child))\<rparr>"
  by (simp add: mergeWithParent_steps merge_fields)
     (simp add: mergeModelParams_def mergeSystem_fields)

lemma mergeWithParent_edges:
  "InheritsFrom (fst (mergeWithParent rt child parent mem)) = InheritsFrom child"
  "DependsOn (fst (mergeWithParent rt child parent mem)) = DependsOn child"
  "Profile.ID (fst (mergeWithParent rt child parent mem)) = Profile.ID child"
  by (simp_all add: mergeWithParent_steps merge_fields)

lemma mergeFewShot_elems:
  assumes "validSlice (fewShotArrays mem) (FewShot p)"
  shows "sliceElems (fewShotArrays (snd (mergeFewShot rt c p mem)))
           (FewShot (fst (mergeFewShot rt c p mem))) =
         sliceElems (fewShotArrays mem) (FewShot p) @ sliceElems (fewShotArrays mem) (FewShot c)"
proof (cases "sliceLen (FewShot p) > 0")
  case True
  obtain s arrays where a: "appendSlice rt (fewShotArrays mem) (FewShot p)
                              (sliceElems (fewShotArrays mem) (FewShot c)) = (s, arrays)"
    by (cases "appendSlice rt (fewShotArrays mem) (FewShot p)
                 (sliceElems (fewShotArrays mem) (FewShot c))") auto
  show ?thesis using True a appendSlice_elems[OF assms a] by (simp add: mergeFewShot_def)
next
  case False
  then show ?thesis using sliceElems_empty[OF assms] by (simp add: mergeFewShot_def)
qed

lemma mergePolicy_elems:
  assumes "validSlice (conditionArrays mem) (Conditions (Policy p))"
  shows "sliceElems (conditionArrays (snd (mergePolicy rt c p mem)))
           (Conditions (Policy (fst (mergePolicy rt c p mem)))) =
         sliceElems (conditionArrays mem) (Conditions (Policy p)) @
         sliceElems (conditionArrays mem) (Conditions (Policy c))"
proof (cases "sliceLen (Conditions (Policy p)) > 0")
  case True
  obtain s arrays where a: "appendSlice rt (conditionArrays mem) (Conditions (Policy p))
                              (sliceElems (conditionArrays mem) (Conditions (Policy c))) =
                            (s, arrays)"
    by (cases "appendSlice rt (conditionArrays mem) (Conditions (Policy p))
                 (sliceElems (conditionArrays mem) (Conditions (Policy c)))") auto
  show ?thesis using True a appendSlice_elems[OF assms a] by (simp add: mergePolicy_def)
next
  case False
  then show ?thesis using sliceElems_empty[OF assms] by (simp add: mergePolicy_def)
qed

lemma mergeWithParent_lists:
  assumes f: "validSlice (fewShotArrays mem) (FewShot parent)"
    and c: "validSlice (conditionArrays mem) (Conditions (Policy parent))"
  shows "sliceElems (fewShotArrays (snd (mergeWithParent rt child parent mem)))
           (FewShot (fst (mergeWithParent rt child parent mem))) =
         sliceElems (fewShotArrays mem) (FewShot parent) @
         sliceElems (fewShotArrays mem) (FewShot child)"
    and "sliceElems (conditionArrays (snd (mergeWithParent rt child parent mem)))
           (Conditions (Policy (fst (mergeWithParent rt child parent mem)))) =
         sliceElems (conditionArrays mem) (Conditions (Policy parent)) @
         sliceElems (conditionArrays mem) (Conditions (Policy child))"
proof -
  let ?c2 = "mergeModelParams (mergeSystem child parent) parent"
  let ?r3 = "mergeFewShot rt ?c2 parent mem"
  let ?r4 = "mergePolicy rt (fst ?r3) parent (snd ?r3)"
  have "sliceElems (fewShotArrays (snd ?r3)) (FewShot (fst ?r3)) =
        sliceElems (fewShotArrays mem) (FewShot parent) @
        sliceElems (fewShotArrays mem) (FewShot ?c2)"
    by (rule mergeFewShot_elems[OF f])
  then show "sliceElems (fewShotArrays (snd (mergeWithParent rt child parent mem)))
           (FewShot (fst (mergeWithParent rt child parent mem))) =
         sliceElems (fewShotArrays mem) (FewShot parent) @
         sliceElems (fewShotArrays mem) (FewShot child)"
    by (simp add: mergeWithParent_steps mergePolicy_fields mergeValidation_fields
        mergeModelParams_fields mergeSystem_fields)
  have c3: "validSlice (conditionArrays (snd ?r3)) (Conditions (Policy parent))"
    using c by (simp add: mergeFewShot_fields)
  have "sliceElems (conditionArrays (snd ?r4)) (Conditions (Policy (fst ?r4))) =
        sliceElems (conditionArrays (snd ?r3)) (Conditions (Policy parent)) @
        sliceElems (conditionArrays (snd ?r3)) (Conditions (Policy (fst ?r3)))"
    by (rule mergePolicy_elems[OF c3])
  then show "sliceElems (conditionArrays (snd (mergeWithParent rt child parent mem)))
           (Conditions (Policy (fst (mergeWithParent rt child parent mem)))) =
         sliceElems (conditionArrays mem) (Conditions (Policy parent)) @
         sliceElems (conditionArrays mem) (Conditions (Policy child))"
    by (simp add: mergeWithParent_steps mergeFewShot_fields mergeValidation_fields
        mergeModelParams_fields mergeSystem_fields)
qed

text \<open>
  C3 (as amended).  For every parent and child, with the parent's two slices valid in the
  memory, the merged child has: as system prompt the parent's, a blank line and the child's,
  when both are non-empty; each of the model parameters temperature, maximum tokens and
  timeout equal to the child's value when that value is not zero and to the parent's
  otherwise; the parameters \<^verbatim>\<open>top_p\<close> and \<^verbatim>\<open>top_k\<close> equal to the child's value always; and as
  few-shot examples and as policy conditions, read when the merge returns, the parent's list
  followed by the child's.
\<close>

theorem mergeWithParent_effective:
  assumes "validSlice (fewShotArrays mem) (FewShot parent)"
    and "validSlice (conditionArrays mem) (Conditions (Policy parent))"
    and "mergeWithParent rt child parent mem = (merged, mem')"
  shows "(System parent \<noteq> [] \<and> System child \<noteq> [] \<longrightarrow>
            System merged = System parent @ [CHR 0x0A, CHR 0x0A] @ System child) \<and>
         Temperature (ModelParams merged) =
           (if Temperature (ModelParams child) \<noteq> 0 then Temperature (ModelParams child)
            else Temperature (ModelParams parent)) \<and>
         MaxTokens (ModelParams merged) =
           (if MaxTokens (ModelParams child) \<noteq> 0 then MaxTokens (ModelParams child)
            else MaxTokens (ModelParams parent)) \<and>
         TimeoutSeconds (ModelParams merged) =
           (if TimeoutSeconds (ModelParams child) \<noteq> 0 then TimeoutSeconds (ModelParams child)
            else TimeoutSeconds (ModelParams parent)) \<and>
         TopP (ModelParams merged) = TopP (ModelParams child) \<and>
         TopK (ModelParams merged) = TopK (ModelParams child) \<and>
         sliceElems (fewShotArrays mem') (FewShot merged) =
           sliceElems (fewShotArrays mem) (FewShot parent) @
           sliceElems (fewShotArrays mem) (FewShot child) \<and>
         sliceElems (conditionArrays mem') (Conditions (Policy merged)) =
           sliceElems (conditionArrays mem) (Conditions (Policy parent)) @
           sliceElems (conditionArrays mem) (Conditions (Policy child))"
proof -
  have m: "merged = fst (mergeWithParent rt child parent mem)"
    and m': "mem' = snd (mergeWithParent rt child parent mem)"
    using assms(3) by simp_all
  show ?thesis
    unfolding m m'
    using mergeWithParent_lists[OF assms(1) assms(2), of rt child]
    by (simp add: mergeWithParent_System mergeWithParent_ModelParams)
qed


subsection \<open>Concrete families of profiles\<close>

definition example :: "string \<Rightarrow> FewShotExample" where
  "example n = \<lparr>FewShotExample.Name = n, Input = n @ '' input'', Output = n @ '' output''\<rparr>"

definition condition :: "string \<Rightarrow> PolicyCondition" where
  "condition n = \<lparr>Name = n, Expression = ''confidence > 0.8'', Actions = [], Priority = 0\<rparr>"

definition family_profile ::
  "string \<Rightarrow> string \<Rightarrow> ModelParams \<Rightarrow> FewShotExample list \<Rightarrow> PolicyCondition list \<Rightarrow> Profile"
  where
  "family_profile pid parent params examples conditions =
     \<lparr>ID = pid, Version = ''1.0.0'', InheritsFrom = parent, DependsOn = [],
      ConditionalExecution = None, Model = ''qwen2.5:7b'', ModelParams = params,
      Response = \<lparr>Schema = ''{}'',
                   Validation = \<lparr>RequiredFields = [''action''], ConfidenceRange = (0, 1),
                                  AllowedActions = []\<rparr>\<rparr>,
      System = ''Prompt of '' @ pid, FewShot = Exact examples,
      Policy = \<lparr>Conditions = Exact conditions\<rparr>,
      CreatedAt = 0, UpdatedAt = 0\<rparr>"

text \<open>A parent, and a child whose file says \<^verbatim>\<open>temperature: 0\<close> and has no \<^verbatim>\<open>top_p\<close> and no
  \<^verbatim>\<open>top_k\<close>.\<close>

definition parent_base :: Profile where
  "parent_base =
     family_profile ''base'' []
       \<lparr>Temperature = 0.7, MaxTokens = 500, TimeoutSeconds = 20, TopP = 0.9, TopK = 40\<rparr>
       [example ''base1''] [condition ''base_rule'']"

definition child_zero :: Profile where
  "child_zero =
     family_profile ''child'' ''base''
       \<lparr>Temperature = 0, MaxTokens = 1000, TimeoutSeconds = 30, TopP = 0, TopK = 0\<rparr>
       [example ''child1''] [condition ''child_rule'']"

definition files_inherit :: "(string \<times> Profile option) list" where
  "files_inherit = [(''base.yaml'', Some parent_base), (''child.yaml'', Some child_zero)]"

definition params_plain :: ModelParams where
  "params_plain =
     \<lparr>Temperature = 0.1, MaxTokens = 1000, TimeoutSeconds = 30, TopP = 0, TopK = 0\<rparr>"

definition files_siblings :: "(string \<times> Profile option) list" where
  "files_siblings =
     [(''base.yaml'',
       Some (family_profile ''base'' [] params_plain
               [example ''base1'', example ''base2'', example ''base3''] [])),
      (''mid.yaml'', Some (family_profile ''mid'' ''base'' params_plain [example ''mid1''] [])),
      (''kid1.yaml'', Some (family_profile ''kid1'' ''mid'' params_plain [example ''kid1''] [])),
      (''kid2.yaml'', Some (family_profile ''kid2'' ''mid'' params_plain [example ''kid2''] []))]"

text \<open>The same parent after an earlier \<^verbatim>\<open>append\<close> has left its example in an array of
  capacity two.\<close>

definition parent_spare :: Profile where
  "parent_spare = parent_base\<lparr>FewShot := Prefix 0 1\<rparr>"

definition mem_spare :: memory where
  "mem_spare =
     \<lparr>fewShotArrays = [\<lparr>cells = [example ''base1''], capacity = 2\<rparr>], conditionArrays = []\<rparr>"

theorem mergeWithParent_effective_witness:
  "validSlice (fewShotArrays mem_spare) (FewShot parent_spare) \<and>
   validSlice (conditionArrays mem_spare) (Conditions (Policy parent_spare)) \<and>
   validateProfile parent_spare = None \<and> validateProfile child_zero = None \<and>
   System parent_spare \<noteq> [] \<and> System child_zero \<noteq> [] \<and>
   System (fst (mergeWithParent rt_plain child_zero parent_spare mem_spare)) =
     ''Prompt of base'' @ [CHR 0x0A, CHR 0x0A] @ ''Prompt of child'' \<and>
   Temperature (ModelParams (fst (mergeWithParent rt_plain child_zero parent_spare mem_spare)))
     = 0.7 \<and>
   MaxTokens (ModelParams (fst (mergeWithParent rt_plain child_zero parent_spare mem_spare)))
     = 1000 \<and>
   TimeoutSeconds (ModelParams (fst (mergeWithParent rt_plain child_zero parent_spare mem_spare)))
     = 30 \<and>
   TopP (ModelParams (fst (mergeWithParent rt_plain child_zero parent_spare mem_spare))) = 0 \<and>
   TopK (ModelParams (fst (mergeWithParent rt_plain child_zero parent_spare mem_spare))) = 0 \<and>
   FewShot (fst (mergeWithParent rt_plain child_zero parent_spare mem_spare)) = Prefix 0 2 \<and>
   sliceElems (fewShotArrays (snd (mergeWithParent rt_plain child_zero parent_spare mem_spare)))
     (FewShot (fst (mergeWithParent rt_plain child_zero parent_spare mem_spare))) =
     [example ''base1'', example ''child1''] \<and>
   sliceElems (conditionArrays (snd (mergeWithParent rt_plain child_zero parent_spare mem_spare)))
     (Conditions (Policy (fst (mergeWithParent rt_plain child_zero parent_spare mem_spare)))) =
     [condition ''base_rule'', condition ''child_rule'']"
proof -
  let ?r = "mergeWithParent rt_plain child_zero parent_spare mem_spare"
  have v1: "validSlice (fewShotArrays mem_spare) (FewShot parent_spare)"
    by (simp add: mem_spare_def parent_spare_def)
  have v2: "validSlice (conditionArrays mem_spare) (Conditions (Policy parent_spare))"
    by (simp add: mem_spare_def parent_spare_def parent_base_def family_profile_def)
  have ok: "validateProfile parent_spare = None" "validateProfile child_zero = None"
    by (simp_all add: validateProfile_def parent_spare_def parent_base_def child_zero_def
        family_profile_def)
  have sys: "System parent_spare = ''Prompt of base''" "System child_zero = ''Prompt of child''"
    by (simp_all add: parent_spare_def parent_base_def child_zero_def family_profile_def)
  have par: "ModelParams child_zero =
               \<lparr>Temperature = 0, MaxTokens = 1000, TimeoutSeconds = 30, TopP = 0, TopK = 0\<rparr>"
    "ModelParams parent_spare =
       \<lparr>Temperature = 0.7, MaxTokens = 500, TimeoutSeconds = 20, TopP = 0.9, TopK = 40\<rparr>"
    by (simp_all add: parent_spare_def parent_base_def child_zero_def family_profile_def)
  have lists: "sliceElems (fewShotArrays mem_spare) (FewShot parent_spare) = [example ''base1'']"
    "sliceElems (fewShotArrays mem_spare) (FewShot child_zero) = [example ''child1'']"
    "sliceElems (conditionArrays mem_spare) (Conditions (Policy parent_spare)) =
       [condition ''base_rule'']"
    "sliceElems (conditionArrays mem_spare) (Conditions (Policy child_zero)) =
       [condition ''child_rule'']"
    by (simp_all add: mem_spare_def parent_spare_def parent_base_def child_zero_def
        family_profile_def)
  have place: "FewShot (fst ?r) = Prefix 0 2"
    by (simp add: mergeWithParent_steps mergePolicy_fields mergeValidation_fields)
       (simp add: mergeFewShot_def appendSlice_def mem_spare_def parent_spare_def
          parent_base_def child_zero_def family_profile_def mergeModelParams_def
          mergeSystem_def)
  have r: "?r = (fst ?r, snd ?r)" by simp
  from mergeWithParent_effective[OF v1 v2 r] sys par lists
  have "System (fst ?r) = ''Prompt of base'' @ [CHR 0x0A, CHR 0x0A] @ ''Prompt of child'' \<and>
        Temperature (ModelParams (fst ?r)) = 0.7 \<and>
        MaxTokens (ModelParams (fst ?r)) = 1000 \<and>
        TimeoutSeconds (ModelParams (fst ?r)) = 30 \<and>
        TopP (ModelParams (fst ?r)) = 0 \<and>
        TopK (ModelParams (fst ?r)) = 0 \<and>
        sliceElems (fewShotArrays (snd ?r)) (FewShot (fst ?r)) =
          [example ''base1'', example ''child1''] \<and>
        sliceElems (conditionArrays (snd ?r)) (Conditions (Policy (fst ?r))) =
          [condition ''base_rule'', condition ''child_rule'']"
    by simp
  then show ?thesis using v1 v2 ok sys place by simp
qed

text \<open>
  C3 as stated fails.  The file of the child says \<^verbatim>\<open>temperature: 0\<close> and names neither
  \<^verbatim>\<open>top_p\<close> nor \<^verbatim>\<open>top_k\<close>; the parent has the temperature 0.7, \<^verbatim>\<open>top_p\<close> 0.9 and \<^verbatim>\<open>top_k\<close>
  40.  \<^verbatim>\<open>LoadAll\<close> loads both, and the effective child has the parent's temperature, although
  the child set its own, and zero for \<^verbatim>\<open>top_p\<close> and \<^verbatim>\<open>top_k\<close>, although the child set neither.
  Whether a parameter of value zero counts as set by the child or not, one of the
  parameters contradicts the claim.
\<close>

theorem inherited_parameters_counterexample:
  "fst (LoadAll rt_plain (Some files_inherit) (NewLoader ''profiles'')) = None \<and>
   map_option ModelParams
     (map_of (Profiles (registry (snd (LoadAll rt_plain (Some files_inherit)
                                         (NewLoader ''profiles''))))) ''child'') =
     Some \<lparr>Temperature = 0.7, MaxTokens = 1000, TimeoutSeconds = 30, TopP = 0, TopK = 0\<rparr> \<and>
   map_option ModelParams
     (map_of (Profiles (registry (snd (LoadAll rt_plain (Some files_inherit)
                                         (NewLoader ''profiles''))))) ''base'') =
     Some \<lparr>Temperature = 0.7, MaxTokens = 500, TimeoutSeconds = 20, TopP = 0.9, TopK = 40\<rparr> \<and>
   ModelParams child_zero =
     \<lparr>Temperature = 0, MaxTokens = 1000, TimeoutSeconds = 30, TopP = 0, TopK = 0\<rparr> \<and>
   InheritsFrom child_zero = ''base''"
  by code_simp

text \<open>
  The amended statement reads the two lists when the merge returns, and says nothing of
  them afterwards.  A child that is merged later with the same parent is appended into the
  same array when that array has room, over what the earlier child has put there.  Below,
  \<open>mid\<close> receives an array of capacity 6 for its four examples (three of \<open>base\<close> and its
  own); the merges of \<open>kid1\<close> and of \<open>kid2\<close> both write the fifth cell, and the registry ends
  with the example of \<open>kid2\<close> in the list of \<open>kid1\<close>.
\<close>

lemma sibling_merge_overwrites:
  "fst (LoadAll rt_plain (Some files_siblings) (NewLoader ''profiles'')) = None \<and>
   LoadOrder (registry (snd (LoadAll rt_plain (Some files_siblings) (NewLoader ''profiles''))))
     = [''base'', ''mid'', ''kid1'', ''kid2''] \<and>
   map_option FewShot
     (map_of (Profiles (registry (snd (LoadAll rt_plain (Some files_siblings)
                                         (NewLoader ''profiles''))))) ''kid1'') =
     Some (Prefix 0 5) \<and>
   map FewShotExample.Name
     (sliceElems (fewShotArrays (heap (snd (LoadAll rt_plain (Some files_siblings)
                                               (NewLoader ''profiles''))))) (Prefix 0 5)) =
     [''base1'', ''base2'', ''base3'', ''mid1'', ''kid2'']"
  by code_simp

subsection \<open>The queue loop keeps dependencies first\<close>

lemma relax_getInt:
  "getInt (fst (relax ns (m, q))) k = getInt m k - int (count_list ns k)"
proof (induction ns arbitrary: m q)
  case Nil
  then show ?case by simp
next
  case (Cons n ns)
  show ?case
    by (simp add: Let_def Cons getInt_update)
qed

lemma relax_queue:
  "\<exists>added. snd (relax ns (m, q)) = q @ added \<and> distinct added \<and>
     set added = {k \<in> set ns. 1 \<le> getInt m k \<and> getInt m k \<le> int (count_list ns k)}"
proof (induction ns arbitrary: m q)
  case Nil
  then show ?case by simp
next
  case (Cons n ns)
  let ?m = "AList.update n (getInt m n - 1) m"
  have gm: "\<And>k. getInt ?m k = (if k = n then getInt m n - 1 else getInt m k)"
    by (simp add: getInt_update)
  show ?case
  proof (cases "getInt m n = 1")
    case True
    from Cons[of ?m "q @ [n]"] obtain added where
      a: "snd (relax ns (?m, q @ [n])) = (q @ [n]) @ added" "distinct added"
         "set added = {k \<in> set ns. 1 \<le> getInt ?m k \<and> getInt ?m k \<le> int (count_list ns k)}"
      by blast
    have n_notin: "n \<notin> set added" using a(3) True gm by auto
    have "snd (relax (n # ns) (m, q)) = q @ (n # added)"
      using True a(1) gm by (simp add: Let_def)
    moreover have "distinct (n # added)" using a(2) n_notin by simp
    moreover have "set (n # added) =
        {k \<in> set (n # ns). 1 \<le> getInt m k \<and> getInt m k \<le> int (count_list (n # ns) k)}"
      using a(3) True gm by auto
    ultimately show ?thesis by blast
  next
    case False
    from Cons[of ?m q] obtain added where
      a: "snd (relax ns (?m, q)) = q @ added" "distinct added"
         "set added = {k \<in> set ns. 1 \<le> getInt ?m k \<and> getInt ?m k \<le> int (count_list ns k)}"
      by blast
    have "snd (relax (n # ns) (m, q)) = q @ added"
      using False a(1) gm by (simp add: Let_def)
    moreover have "set added =
        {k \<in> set (n # ns). 1 \<le> getInt m k \<and> getInt m k \<le> int (count_list (n # ns) k)}"
    proof -
      have "n \<notin> set ns \<Longrightarrow> count_list ns n = 0" by (simp add: count_list_0_iff)
      then show ?thesis using a(3) False gm by auto
    qed
    ultimately show ?thesis using a(2) by blast
  qed
qed

lemma filter_notin_snoc:
  "c \<notin> set r \<Longrightarrow>
   int (length (filter (\<lambda>d. d \<notin> set (r @ [c])) ds)) =
   int (length (filter (\<lambda>d. d \<notin> set r) ds)) - int (count_list ds c)"
  by (induction ds) auto

lemma count_le_filter_notin:
  "c \<notin> set r \<Longrightarrow> count_list ds c \<le> length (filter (\<lambda>d. d \<notin> set r) ds)"
  by (induction ds) auto

text \<open>A list has its dependencies first when every dependency of an element stands at a
  smaller index.\<close>

definition depsFirst :: "string list gomap \<Rightarrow> string list \<Rightarrow> bool" where
  "depsFirst D r \<longleftrightarrow>
     (\<forall>i < length r. \<forall>d \<in> set (getList D (r ! i)). \<exists>j < i. r ! j = d)"

lemma depsFirst_snoc:
  assumes "depsFirst D r" and "set (getList D c) \<subseteq> set r"
  shows "depsFirst D (r @ [c])"
  unfolding depsFirst_def
proof (intro allI impI ballI)
  fix i d
  assume i: "i < length (r @ [c])" and d: "d \<in> set (getList D ((r @ [c]) ! i))"
  show "\<exists>j < i. (r @ [c]) ! j = d"
  proof (cases "i < length r")
    case True
    then have "d \<in> set (getList D (r ! i))" using d by (simp add: nth_append)
    then obtain j where j: "j < i" "r ! j = d" using assms(1) True by (auto simp: depsFirst_def)
    then have "j < length r" using True by simp
    then have "(r @ [c]) ! j = d" using j(2) by (simp add: nth_append)
    then show ?thesis using j(1) by blast
  next
    case False
    then have il: "i = length r" using i by simp
    then have "d \<in> set (getList D c)" using d by simp
    then have "d \<in> set r" using assms(2) by blast
    then obtain j where j: "j < length r" "r ! j = d" by (auto simp: in_set_conv_nth)
    then have "(r @ [c]) ! j = d" by (simp add: nth_append)
    then show ?thesis using j(1) il by blast
  qed
qed

definition kahn_inv ::
  "string list gomap \<Rightarrow> string set \<Rightarrow> int gomap \<Rightarrow> string list \<Rightarrow> string list \<Rightarrow> bool" where
  "kahn_inv D K m q r \<longleftrightarrow>
     distinct (r @ q) \<and> set (r @ q) \<subseteq> K \<and>
     (\<forall>k. getInt m k = int (length (filter (\<lambda>d. d \<notin> set r) (getList D k)))) \<and>
     (\<forall>k \<in> set (r @ q). getInt m k = 0) \<and>
     depsFirst D r"

lemma kahn_step:
  assumes adj: "\<And>d k. count_list (getList adj d) k = count_list (getList D k) d"
    and dk: "\<And>k. getList D k \<noteq> [] \<Longrightarrow> k \<in> K"
    and inv: "kahn_inv D K m (c # q) r"
  shows "kahn_inv D K (fst (relax (getList adj c) (m, q)))
           (snd (relax (getList adj c) (m, q))) (r @ [c])"
proof -
  let ?ns = "getList adj c"
  let ?m' = "fst (relax ?ns (m, q))"
  from inv have dist: "distinct (r @ c # q)" and sub: "set (r @ c # q) \<subseteq> K"
    and cnt: "\<And>k. getInt m k = int (length (filter (\<lambda>d. d \<notin> set r) (getList D k)))"
    and zero: "\<And>k. k \<in> set (r @ c # q) \<Longrightarrow> getInt m k = 0"
    and df: "depsFirst D r"
    by (auto simp: kahn_inv_def)
  have c_notin: "c \<notin> set r" using dist by auto
  obtain added where
    q': "snd (relax ?ns (m, q)) = q @ added" and da: "distinct added"
    and sa: "set added = {k \<in> set ?ns. 1 \<le> getInt m k \<and> getInt m k \<le> int (count_list ?ns k)}"
    using relax_queue[of ?ns m q] by blast
  have cnt': "\<And>k. getInt ?m' k =
      int (length (filter (\<lambda>d. d \<notin> set (r @ [c])) (getList D k)))"
    using relax_getInt[of ?ns m q] cnt adj filter_notin_snoc[OF c_notin] by simp
  have le: "\<And>k. int (count_list ?ns k) \<le> getInt m k"
    using cnt adj count_le_filter_notin[OF c_notin] by simp
  have zero_old: "\<And>k. k \<in> set (r @ c # q) \<Longrightarrow> getInt ?m' k = 0"
  proof -
    fix k assume k: "k \<in> set (r @ c # q)"
    have "getInt m k = 0" using zero k by blast
    moreover have "0 \<le> int (count_list ?ns k)" by simp
    ultimately have "count_list ?ns k = 0" using le[of k] by linarith
    then show "getInt ?m' k = 0" using relax_getInt[of ?ns m q k] \<open>getInt m k = 0\<close> by simp
  qed
  have zero_added: "\<And>k. k \<in> set added \<Longrightarrow> getInt ?m' k = 0"
  proof -
    fix k assume "k \<in> set added"
    then have "getInt m k \<le> int (count_list ?ns k)" using sa by auto
    with le[of k] have "getInt m k = int (count_list ?ns k)" by linarith
    then show "getInt ?m' k = 0" using relax_getInt[of ?ns m q k] by simp
  qed
  have added_new: "set added \<inter> set (r @ c # q) = {}"
  proof -
    have "\<And>k. k \<in> set added \<Longrightarrow> k \<notin> set (r @ c # q)"
    proof
      fix k assume "k \<in> set added" and "k \<in> set (r @ c # q)"
      then have "1 \<le> getInt m k" and "getInt m k = 0" using sa zero by auto
      then show False by simp
    qed
    then show ?thesis by auto
  qed
  have added_K: "set added \<subseteq> K"
  proof
    fix k assume "k \<in> set added"
    then have "k \<in> set ?ns" using sa by auto
    then have "count_list ?ns k \<noteq> 0" by (simp add: count_list_0_iff)
    then have "count_list (getList D k) c \<noteq> 0" using adj by simp
    then have "getList D k \<noteq> []" by auto
    then show "k \<in> K" by (rule dk)
  qed
  have deps_c: "set (getList D c) \<subseteq> set r"
  proof -
    have "getInt m c = 0" using zero by simp
    then have "filter (\<lambda>d. d \<notin> set r) (getList D c) = []" using cnt[of c] by simp
    then show ?thesis by (auto simp: filter_empty_conv)
  qed
  have d1: "distinct ((r @ [c]) @ q @ added)"
  proof -
    have "distinct (r @ c # q)" by (rule dist)
    moreover have "set added \<inter> (set r \<union> {c} \<union> set q) = {}" using added_new by auto
    ultimately show ?thesis using da by auto
  qed
  have d2: "set ((r @ [c]) @ q @ added) \<subseteq> K"
  proof -
    have "set r \<subseteq> K" "c \<in> K" "set q \<subseteq> K" using sub by auto
    then show ?thesis using added_K by auto
  qed
  have d3: "\<forall>k \<in> set ((r @ [c]) @ q @ added). getInt ?m' k = 0"
  proof
    fix k assume "k \<in> set ((r @ [c]) @ q @ added)"
    then have "k \<in> set (r @ c # q) \<or> k \<in> set added" by auto
    then show "getInt ?m' k = 0" using zero_old zero_added by blast
  qed
  have d4: "depsFirst D (r @ [c])" using df deps_c by (rule depsFirst_snoc)
  show ?thesis
    unfolding kahn_inv_def q'
    using d1 d2 d3 d4 cnt' by blast
qed

lemma processQueue_sound:
  "kahn_inv D K m q r \<Longrightarrow>
   (\<forall>d k. count_list (getList adj d) k = count_list (getList D k) d) \<Longrightarrow>
   (\<forall>k. getList D k \<noteq> [] \<longrightarrow> k \<in> K) \<Longrightarrow>
   distinct (processQueue adj m q r) \<and> set (processQueue adj m q r) \<subseteq> K \<and>
   depsFirst D (processQueue adj m q r)"
proof (induction adj m q r rule: processQueue.induct)
  case (1 adjList inDegree result)
  then show ?case by (simp add: kahn_inv_def)
next
  case (2 adjList inDegree current queue result)
  have "kahn_inv D K (fst (relax (getList adjList current) (inDegree, queue)))
          (snd (relax (getList adjList current) (inDegree, queue))) (result @ [current])"
    using kahn_step[of adjList D K inDegree current queue result] "2.prems" by blast
  then show ?case using "2.IH" "2.prems"(2,3) by simp
qed

subsection \<open>The graph built by the first two loops\<close>

lemma fold_zero_getInt:
  "getInt (fold (\<lambda>pid m. AList.update pid 0 m) pids m0) k =
     (if k \<in> set pids then 0 else getInt m0 k)"
  by (induction pids arbitrary: m0) (auto simp: getInt_update)

lemma fold_nil_getList:
  "getList (fold (\<lambda>pid m. AList.update pid [] m) pids m0) k =
     (if k \<in> set pids then [] else getList m0 k)"
  by (induction pids arbitrary: m0) (auto simp: getList_update)

lemma fold_update_keys:
  "fst ` set (fold (\<lambda>pid m. AList.update pid v m) pids m0) = fst ` set m0 \<union> set pids"
  by (induction pids arbitrary: m0) (auto simp: keys_update)

lemma fold_update_distinct:
  "distinct (map fst m0) \<Longrightarrow> distinct (map fst (fold (\<lambda>pid m. AList.update pid v m) pids m0))"
  by (induction pids arbitrary: m0) (auto simp: distinct_update)

lemma count_list_snoc:
  "count_list (xs @ [x]) k = count_list xs k + (if k = x then 1 else 0)"
  by (induction xs) auto

lemma addEdges_Inr:
  "addEdges P pid deps (adj, ind) = Inr (adj', ind') \<Longrightarrow>
     (\<forall>d \<in> set deps. map_of P d \<noteq> None) \<and>
     (\<forall>k. getInt ind' k = getInt ind k + (if k = pid then int (length deps) else 0)) \<and>
     (\<forall>d k. count_list (getList adj' d) k =
        count_list (getList adj d) k + (if k = pid then count_list deps d else 0)) \<and>
     fst ` set ind' \<subseteq> fst ` set ind \<union> {pid} \<and>
     (distinct (map fst ind) \<longrightarrow> distinct (map fst ind'))"
proof (induction deps arbitrary: adj ind)
  case Nil
  then show ?case by auto
next
  case (Cons dep deps)
  let ?adj = "AList.update dep (getList adj dep @ [pid]) adj"
  let ?ind = "AList.update pid (getInt ind pid + 1) ind"
  from Cons.prems have present: "map_of P dep \<noteq> None"
    and rest: "addEdges P pid deps (?adj, ?ind) = Inr (adj', ind')"
    by (auto split: if_splits)
  from Cons.IH[OF rest] have
    i1: "\<forall>d \<in> set deps. map_of P d \<noteq> None"
    and i2: "\<forall>k. getInt ind' k = getInt ?ind k + (if k = pid then int (length deps) else 0)"
    and i3: "\<forall>d k. count_list (getList adj' d) k =
        count_list (getList ?adj d) k + (if k = pid then count_list deps d else 0)"
    and i4: "fst ` set ind' \<subseteq> fst ` set ?ind \<union> {pid}"
    and i5: "distinct (map fst ?ind) \<longrightarrow> distinct (map fst ind')"
    by blast+
  have c1: "\<forall>d \<in> set (dep # deps). map_of P d \<noteq> None" using i1 present by simp
  have c2: "\<forall>k. getInt ind' k =
      getInt ind k + (if k = pid then int (length (dep # deps)) else 0)"
    using i2 by (simp add: getInt_update)
  have c3: "\<forall>d k. count_list (getList adj' d) k =
      count_list (getList adj d) k + (if k = pid then count_list (dep # deps) d else 0)"
    using i3 by (simp add: getList_update count_list_snoc)
  have c4: "fst ` set ind' \<subseteq> fst ` set ind \<union> {pid}"
    using i4 by (simp add: keys_update)
  have c5: "distinct (map fst ind) \<longrightarrow> distinct (map fst ind')"
    using i5 by (simp add: distinct_update)
  from c1 c2 c3 c4 c5 show ?case by blast
qed

lemma buildGraph_Inr:
  "buildGraph P D pids (adj, ind) = Inr (adj', ind') \<Longrightarrow> distinct pids \<Longrightarrow>
     (\<forall>p \<in> set pids. \<forall>d \<in> set (getList D p). map_of P d \<noteq> None) \<and>
     (\<forall>k. getInt ind' k =
        getInt ind k + (if k \<in> set pids then int (length (getList D k)) else 0)) \<and>
     (\<forall>d k. count_list (getList adj' d) k =
        count_list (getList adj d) k + (if k \<in> set pids then count_list (getList D k) d else 0)) \<and>
     fst ` set ind' \<subseteq> fst ` set ind \<union> set pids \<and>
     (distinct (map fst ind) \<longrightarrow> distinct (map fst ind'))"
proof (induction pids arbitrary: adj ind)
  case Nil
  then show ?case by simp
next
  case (Cons pid pids)
  from Cons.prems(1) obtain adj1 ind1 where
    e: "addEdges P pid (getList D pid) (adj, ind) = Inr (adj1, ind1)"
    and rest: "buildGraph P D pids (adj1, ind1) = Inr (adj', ind')"
    by (auto split: sum.splits)
  from Cons.prems(2) have dp: "distinct pids" and pn: "pid \<notin> set pids" by auto
  from addEdges_Inr[OF e] have
    a1: "\<forall>d \<in> set (getList D pid). map_of P d \<noteq> None"
    and a2: "\<forall>k. getInt ind1 k =
        getInt ind k + (if k = pid then int (length (getList D pid)) else 0)"
    and a3: "\<forall>d k. count_list (getList adj1 d) k =
        count_list (getList adj d) k + (if k = pid then count_list (getList D pid) d else 0)"
    and a4: "fst ` set ind1 \<subseteq> fst ` set ind \<union> {pid}"
    and a5: "distinct (map fst ind) \<longrightarrow> distinct (map fst ind1)"
    by blast+
  from Cons.IH[OF rest dp] have
    i1: "\<forall>p \<in> set pids. \<forall>d \<in> set (getList D p). map_of P d \<noteq> None"
    and i2: "\<forall>k. getInt ind' k =
        getInt ind1 k + (if k \<in> set pids then int (length (getList D k)) else 0)"
    and i3: "\<forall>d k. count_list (getList adj' d) k =
        count_list (getList adj1 d) k + (if k \<in> set pids then count_list (getList D k) d else 0)"
    and i4: "fst ` set ind' \<subseteq> fst ` set ind1 \<union> set pids"
    and i5: "distinct (map fst ind1) \<longrightarrow> distinct (map fst ind')"
    by blast+
  have c1: "\<forall>p \<in> set (pid # pids). \<forall>d \<in> set (getList D p). map_of P d \<noteq> None"
    using a1 i1 by simp
  have c2: "\<forall>k. getInt ind' k =
      getInt ind k + (if k \<in> set (pid # pids) then int (length (getList D k)) else 0)"
  proof
    fix k
    show "getInt ind' k =
      getInt ind k + (if k \<in> set (pid # pids) then int (length (getList D k)) else 0)"
      using a2[rule_format, of k] i2[rule_format, of k] pn by (cases "k = pid") auto
  qed
  have c3: "\<forall>d k. count_list (getList adj' d) k =
      count_list (getList adj d) k +
      (if k \<in> set (pid # pids) then count_list (getList D k) d else 0)"
  proof (intro allI)
    fix d k
    show "count_list (getList adj' d) k =
      count_list (getList adj d) k +
      (if k \<in> set (pid # pids) then count_list (getList D k) d else 0)"
      using a3[rule_format, of d k] i3[rule_format, of d k] pn by (cases "k = pid") auto
  qed
  have c4: "fst ` set ind' \<subseteq> fst ` set ind \<union> set (pid # pids)"
  proof -
    have "fst ` set ind1 \<union> set pids \<subseteq> fst ` set ind \<union> set (pid # pids)" using a4 by auto
    then show ?thesis using i4 by blast
  qed
  have c5: "distinct (map fst ind) \<longrightarrow> distinct (map fst ind')"
    using a5 i5 by blast
  from c1 c2 c3 c4 c5 show ?case by blast
qed

lemma getList_not_key: "k \<notin> fst ` set D \<Longrightarrow> getList D k = []"
  using map_of_eq_None_iff[of D k] by (simp add: getList_def)

lemma map_of_key_iff: "map_of P k \<noteq> None \<longleftrightarrow> k \<in> fst ` set P"
  by (simp add: map_of_eq_None_iff)

lemma topologicalSort_sound:
  assumes ok: "range_ok rt"
    and dP: "distinct (map fst P)"
    and dD: "distinct (map fst (Dependencies (registry l)))"
    and sub: "fst ` set (Dependencies (registry l)) \<subseteq> fst ` set P"
    and res: "topologicalSort rt l P = Inr order"
  shows "distinct order \<and> set order = fst ` set P \<and>
         depsFirst (Dependencies (registry l)) order \<and>
         (\<forall>p. set (getList (Dependencies (registry l)) p) \<subseteq> fst ` set P)"
proof -
  let ?D = "Dependencies (registry l)"
  let ?K = "fst ` set P"
  let ?pids = "rangeOrder rt RangeProfilesInit (map fst P)"
  let ?ind0 = "fold (\<lambda>pid m. AList.update pid (0::int) m) ?pids []"
  let ?adj0 = "fold (\<lambda>pid m. AList.update pid ([]::string list) m) ?pids []"
  let ?dids = "rangeOrder rt RangeDependencies (map fst ?D)"
  have pids: "set ?pids = ?K" using ok dP by (simp add: range_ok_def)
  have dids: "distinct ?dids" "set ?dids = fst ` set ?D" using ok dD by (simp_all add: range_ok_def)
  from res obtain adj ind where
    bg: "buildGraph P ?D ?dids (?adj0, ?ind0) = Inr (adj, ind)"
    by (auto simp: topologicalSort_def Let_def split: sum.splits)
  let ?queue = "filter (\<lambda>pid. getInt ind pid = 0) (rangeOrder rt RangeInDegree (map fst ind))"
  from res bg have order: "order = processQueue adj ind ?queue []"
    and len: "length order = length P"
    by (auto simp: topologicalSort_def Let_def split: if_splits)
  note g = buildGraph_Inr[OF bg dids(1)]
  note g1 = g[THEN conjunct1]
  note g2 = g[THEN conjunct2, THEN conjunct1]
  note g3 = g[THEN conjunct2, THEN conjunct2, THEN conjunct1]
  note g4 = g[THEN conjunct2, THEN conjunct2, THEN conjunct2, THEN conjunct1]
  note g5 = g[THEN conjunct2, THEN conjunct2, THEN conjunct2, THEN conjunct2]
  have present: "\<forall>p. set (getList ?D p) \<subseteq> ?K"
  proof
    fix p
    show "set (getList ?D p) \<subseteq> ?K"
    proof (cases "p \<in> fst ` set ?D")
      case True
      then have "p \<in> set ?dids" using dids(2) by simp
      then have "\<forall>d \<in> set (getList ?D p). map_of P d \<noteq> None" using g1 by blast
      then show ?thesis using map_of_key_iff[of P] by blast
    next
      case False
      then show ?thesis by (simp add: getList_not_key)
    qed
  qed
  have indeg: "\<And>k. getInt ind k = int (length (getList ?D k))"
  proof -
    fix k
    have "getInt ?ind0 k = (if k \<in> set ?pids then 0 else getInt [] k)"
      by (rule fold_zero_getInt)
    moreover have "getInt [] k = 0" by (simp add: getInt_def)
    ultimately have z: "getInt ?ind0 k = 0" by simp
    show "getInt ind k = int (length (getList ?D k))"
    proof (cases "k \<in> set ?dids")
      case True
      then show ?thesis using g2[rule_format, of k] z by simp
    next
      case False
      then have "getList ?D k = []" using dids(2) getList_not_key[of k ?D] by simp
      then show ?thesis using g2[rule_format, of k] z False by simp
    qed
  qed
  have adjc: "\<forall>d k. count_list (getList adj d) k = count_list (getList ?D k) d"
  proof (intro allI)
    fix d k
    have "getList ?adj0 d = (if d \<in> set ?pids then [] else getList [] d)"
      by (rule fold_nil_getList)
    moreover have "getList ([]::string list gomap) d = []" by (simp add: getList_def)
    ultimately have z: "getList ?adj0 d = []" by simp
    show "count_list (getList adj d) k = count_list (getList ?D k) d"
    proof (cases "k \<in> set ?dids")
      case True
      then show ?thesis using g3[rule_format, of d k] z by simp
    next
      case False
      then have "getList ?D k = []" using dids(2) getList_not_key[of k ?D] by simp
      then show ?thesis using g3[rule_format, of d k] z False by simp
    qed
  qed
  have dk: "\<forall>k. getList ?D k \<noteq> [] \<longrightarrow> k \<in> ?K"
    using getList_not_key[of _ ?D] sub by blast
  have keys_ind: "fst ` set ind \<subseteq> ?K"
  proof -
    have a: "fst ` set ?ind0 = ?K" using fold_update_keys[of "0::int" ?pids "[]"] pids by simp
    have b: "set ?dids \<subseteq> ?K" using dids(2) sub by simp
    have "fst ` set ind \<subseteq> fst ` set ?ind0 \<union> set ?dids" by (rule g4)
    also have "\<dots> \<subseteq> ?K" unfolding a using b by simp
    finally show ?thesis .
  qed
  have dist_ind: "distinct (map fst ind)"
  proof -
    have "distinct (map fst ?ind0)" by (rule fold_update_distinct) simp
    then show ?thesis using g5 by blast
  qed
  have ro: "distinct (rangeOrder rt RangeInDegree (map fst ind))"
    "set (rangeOrder rt RangeInDegree (map fst ind)) = fst ` set ind"
    using ok dist_ind by (simp_all add: range_ok_def)
  have inv: "kahn_inv ?D ?K ind ?queue []"
  proof -
    have "distinct ?queue" using ro(1) by simp
    moreover have "set ?queue \<subseteq> ?K" using ro(2) keys_ind by auto
    moreover have "\<forall>k \<in> set ?queue. getInt ind k = 0" by simp
    moreover have "depsFirst ?D []" by (simp add: depsFirst_def)
    ultimately show ?thesis using indeg by (simp add: kahn_inv_def)
  qed
  from processQueue_sound[OF inv adjc dk] order
  have so: "distinct order" "set order \<subseteq> ?K" "depsFirst ?D order" by simp_all
  have "card ?K = length P" using dP distinct_card[of "map fst P"] by simp
  then have "card (set order) = card ?K" using so(1) len distinct_card[of order] by simp
  then have "set order = ?K" using so(2) by (simp add: card_subset_eq)
  then show ?thesis using so present by blast
qed

subsection \<open>Transitive dependencies\<close>

definition appearsBefore :: "string list \<Rightarrow> string \<Rightarrow> string \<Rightarrow> bool" where
  "appearsBefore order d p \<longleftrightarrow>
     (\<exists>i j. i < j \<and> j < length order \<and> order ! i = d \<and> order ! j = p)"

definition dependsOn :: "string list gomap \<Rightarrow> (string \<times> string) set" where
  "dependsOn D = {(d, p). d \<in> set (getList D p)}"

lemma depsFirst_trancl:
  assumes df: "depsFirst D r" and dr: "distinct r"
    and tc: "(d, p) \<in> (dependsOn D)\<^sup>+"
  shows "p \<in> set r \<longrightarrow> appearsBefore r d p"
  using tc
proof (induction rule: trancl_induct)
  case (base y)
  show ?case
  proof
    assume "y \<in> set r"
    then obtain i where i: "i < length r" "r ! i = y" by (auto simp: in_set_conv_nth)
    have "d \<in> set (getList D (r ! i))" using base i by (simp add: dependsOn_def)
    then obtain j where "j < i" "r ! j = d" using df i(1) by (auto simp: depsFirst_def)
    then show "appearsBefore r d y" using i by (auto simp: appearsBefore_def)
  qed
next
  case (step y z)
  show ?case
  proof
    assume "z \<in> set r"
    then obtain k where k: "k < length r" "r ! k = z" by (auto simp: in_set_conv_nth)
    have "y \<in> set (getList D (r ! k))" using step.hyps(2) k by (simp add: dependsOn_def)
    then obtain j where j: "j < k" "r ! j = y" using df k(1) by (auto simp: depsFirst_def)
    then have "j < length r" using k(1) by simp
    then have "y \<in> set r" using j(2) nth_mem[of j r] by simp
    then have "appearsBefore r d y" using step.IH by blast
    then obtain i j' where ij: "i < j'" "j' < length r" "r ! i = d" "r ! j' = y"
      by (auto simp: appearsBefore_def)
    have "j < length r" using j(1) k(1) by simp
    then have "j' = j" using dr ij(2,4) j(2) nth_eq_iff_index_eq[of r j' j] by simp
    then have "i < k" using ij(1) j(1) by simp
    then show "appearsBefore r d z" using k ij(3) by (auto simp: appearsBefore_def)
  qed
qed

lemma appearsBefore_irrefl: "distinct r \<Longrightarrow> \<not> appearsBefore r p p"
  by (auto simp: appearsBefore_def nth_eq_iff_index_eq)

subsection \<open>From the profiles to the registry\<close>

text \<open>The dependency edges of a profile map: \<open>(d, p)\<close> when the profile \<open>p\<close> names \<open>d\<close> in
  \<^verbatim>\<open>inherits_from\<close> or in \<^verbatim>\<open>depends_on\<close>.\<close>

definition profileEdges :: "Profile gomap \<Rightarrow> (string \<times> string) set" where
  "profileEdges profiles =
     {(d, p). \<exists>profile. map_of profiles p = Some profile \<and> d \<in> set (profileDeps profile)}"

lemma recordDeps_map_of:
  "map_of (recordDeps P pids D0) k =
     (if k \<in> set pids \<and> map_of P k \<noteq> None then map_option profileDeps (map_of P k)
      else map_of D0 k)"
proof (induction pids arbitrary: D0)
  case Nil
  then show ?case by simp
next
  case (Cons pid pids)
  show ?case
  proof (cases "map_of P pid")
    case None
    then show ?thesis using Cons[of D0] by auto
  next
    case (Some profile)
    then show ?thesis using Cons[of "AList.update pid (profileDeps profile) D0"]
      by (auto simp: update_conv')
  qed
qed

lemma recordDeps_distinct:
  "distinct (map fst D0) \<Longrightarrow> distinct (map fst (recordDeps P pids D0))"
  by (induction pids arbitrary: D0) (auto simp: distinct_update split: option.splits)

lemma keys_dom: "fst ` set m = dom (map_of m)"
  by (simp add: dom_map_of_conv_image_fst)

lemma recordDeps_all:
  assumes "set pids = fst ` set P"
  shows "map_of (recordDeps P pids []) k = map_option profileDeps (map_of P k)"
proof (cases "map_of P k")
  case None
  then show ?thesis by (simp add: recordDeps_map_of)
next
  case (Some profile)
  then have "k \<in> fst ` set P" using keys_dom[of P] by auto
  then show ?thesis using Some assms by (simp add: recordDeps_map_of)
qed

lemma dependsOn_recordDeps:
  assumes D: "\<And>k. map_of D k = map_option profileDeps (map_of P k)"
  shows "dependsOn D = profileEdges P" and "fst ` set D = fst ` set P"
proof -
  have "\<And>d p. (d, p) \<in> dependsOn D \<longleftrightarrow> (d, p) \<in> profileEdges P"
  proof -
    fix d p
    show "(d, p) \<in> dependsOn D \<longleftrightarrow> (d, p) \<in> profileEdges P"
      by (cases "map_of P p") (simp_all add: dependsOn_def profileEdges_def getList_def D)
  qed
  then show "dependsOn D = profileEdges P" by auto
  have "dom (map_of D) = dom (map_of P)" using D by (auto simp: dom_def)
  then show "fst ` set D = fst ` set P" by (simp add: keys_dom)
qed

lemma loadFiles_distinct:
  "distinct (map fst acc) \<Longrightarrow> distinct (map fst (loadFiles rt files acc))"
  by (induction rt files acc rule: loadFiles.induct) (auto simp: distinct_update split: sum.splits)

lemma profileDeps_merge:
  "profileDeps (fst (mergeWithParent rt child parent mem)) = profileDeps child"
  by (simp add: profileDeps_def mergeWithParent_edges)

lemma resolveInheritance_edges:
  "resolveInheritance rt pids P mem = Inr (P', mem') \<Longrightarrow>
   map_option profileDeps (map_of P' k) = map_option profileDeps (map_of P k)"
proof (induction pids arbitrary: P mem)
  case Nil
  then show ?case by simp
next
  case (Cons pid pids)
  from Cons.prems obtain profile where pr: "map_of P pid = Some profile"
    by (auto split: option.splits)
  show ?case
  proof (cases "InheritsFrom profile \<noteq> []")
    case True
    with Cons.prems pr obtain parent where
      pa: "map_of P (InheritsFrom profile) = Some parent"
      and rest: "resolveInheritance rt pids
                   (AList.update pid (fst (mergeWithParent rt profile parent mem)) P)
                   (snd (mergeWithParent rt profile parent mem)) = Inr (P', mem')"
      by (auto split: option.splits prod.splits)
    have "map_option profileDeps
            (map_of (AList.update pid (fst (mergeWithParent rt profile parent mem)) P) k) =
          map_option profileDeps (map_of P k)"
      using pr by (simp add: update_conv' profileDeps_merge)
    then show ?thesis using Cons.IH[OF rest] by simp
  next
    case False
    with Cons.prems pr have "resolveInheritance rt pids P mem = Inr (P', mem')" by simp
    then show ?thesis by (rule Cons.IH)
  qed
qed

lemma same_edges:
  assumes "\<And>k. map_option profileDeps (map_of P' k) = map_option profileDeps (map_of P k)"
  shows "profileEdges P' = profileEdges P" and "fst ` set P' = fst ` set P"
proof -
  have "\<And>d p. (d, p) \<in> profileEdges P' \<longleftrightarrow> (d, p) \<in> profileEdges P"
  proof -
    fix d p
    show "(d, p) \<in> profileEdges P' \<longleftrightarrow> (d, p) \<in> profileEdges P"
      using assms[of p]
      by (cases "map_of P p"; cases "map_of P' p") (simp_all add: profileEdges_def)
  qed
  then show "profileEdges P' = profileEdges P" by auto
  have "\<And>k. map_of P' k = None \<longleftrightarrow> map_of P k = None"
  proof -
    fix k
    show "map_of P' k = None \<longleftrightarrow> map_of P k = None"
      using assms[of k] by (cases "map_of P k"; cases "map_of P' k") simp_all
  qed
  then have "dom (map_of P') = dom (map_of P)" by (auto simp: dom_def)
  then show "fst ` set P' = fst ` set P" by (simp add: keys_dom)
qed

text \<open>What a successful \<^verbatim>\<open>LoadAll\<close> went through.\<close>

lemma LoadAll_success:
  assumes "LoadAll rt walk l = (None, l')"
  obtains files l0 where
    "findProfileFiles walk = Some files"
    "Dependencies (registry l0) =
       recordDeps (loadFiles rt files [])
         (rangeOrder rt RangeProfiles (map fst (loadFiles rt files []))) []"
    "topologicalSort rt l0 (loadFiles rt files []) = Inr (LoadOrder (registry l'))"
    "Dependencies (registry l') = Dependencies (registry l0)"
    "resolveInheritance rt (LoadOrder (registry l')) (loadFiles rt files []) (heap l0) =
       Inr (Profiles (registry l'), heap l')"
proof -
  from assms obtain files where f: "findProfileFiles walk = Some files"
    by (auto simp: LoadAll_def Let_def split: option.splits)
  let ?P = "loadFiles rt files []"
  let ?l = "l\<lparr>registry := \<lparr>Profiles = [], Dependencies = [], LoadOrder = []\<rparr>, cache := []\<rparr>"
  let ?ldeps = "?l\<lparr>registry := (registry ?l)
                  \<lparr>Dependencies :=
                     recordDeps ?P (rangeOrder rt RangeProfiles (map fst ?P))
                       (Dependencies (registry ?l))\<rparr>\<rparr>"
  obtain e l1 where b: "buildDependencyGraph rt ?l ?P = (e, l1)"
    by (cases "buildDependencyGraph rt ?l ?P") auto
  from assms f b have e: "e = None"
    by (cases e) (auto simp: LoadAll_def Let_def split: sum.splits)
  obtain t where t0: "topologicalSort rt ?ldeps ?P = t" by simp
  from b e t0 obtain order where t: "topologicalSort rt ?ldeps ?P = Inr order"
    and l1: "l1 = ?ldeps\<lparr>registry := (registry ?ldeps)\<lparr>LoadOrder := order\<rparr>\<rparr>"
    by (cases t) (auto simp: buildDependencyGraph_def Let_def)
  obtain ri where r0: "resolveInheritance rt (LoadOrder (registry l1)) ?P (heap l1) = ri"
    by simp
  from assms f b e r0 obtain P' mem' where
    r: "resolveInheritance rt (LoadOrder (registry l1)) ?P (heap l1) = Inr (P', mem')"
    and l': "l' = l1\<lparr>registry := (registry l1)\<lparr>Profiles := P'\<rparr>, heap := mem'\<rparr>"
    by (cases ri) (auto simp: LoadAll_def Let_def)
  show ?thesis
  proof (rule that[of files ?ldeps])
    show "findProfileFiles walk = Some files" by (rule f)
    show "Dependencies (registry ?ldeps) =
       recordDeps ?P (rangeOrder rt RangeProfiles (map fst ?P)) []" by simp
    show "topologicalSort rt ?ldeps ?P = Inr (LoadOrder (registry l'))" using t l1 l' by simp
    show "Dependencies (registry l') = Dependencies (registry ?ldeps)" using l1 l' by simp
    show "resolveInheritance rt (LoadOrder (registry l')) ?P (heap ?ldeps) =
            Inr (Profiles (registry l'), heap l')"
      using r l1 l' by simp
  qed
qed

lemma LoadAll_sound:
  assumes ok: "range_ok rt" and res: "LoadAll rt walk l = (None, l')"
    and fw: "findProfileFiles walk = Some files"
  shows "distinct (LoadOrder (registry l'))"
    and "set (LoadOrder (registry l')) = fst ` set (Profiles (registry l'))"
    and "depsFirst (Dependencies (registry l')) (LoadOrder (registry l'))"
    and "dependsOn (Dependencies (registry l')) = profileEdges (Profiles (registry l'))"
    and "profileEdges (Profiles (registry l')) = profileEdges (loadFiles rt files [])"
    and "fst ` set (Profiles (registry l')) = fst ` set (loadFiles rt files [])"
proof -
  from res obtain files' l0 where
    f: "findProfileFiles walk = Some files'"
    and d0: "Dependencies (registry l0) =
       recordDeps (loadFiles rt files' [])
         (rangeOrder rt RangeProfiles (map fst (loadFiles rt files' []))) []"
    and t: "topologicalSort rt l0 (loadFiles rt files' []) = Inr (LoadOrder (registry l'))"
    and d': "Dependencies (registry l') = Dependencies (registry l0)"
    and r: "resolveInheritance rt (LoadOrder (registry l')) (loadFiles rt files' []) (heap l0) =
       Inr (Profiles (registry l'), heap l')"
    by (rule LoadAll_success)
  have ff: "files' = files" using f fw by simp
  let ?P = "loadFiles rt files []"
  let ?D = "Dependencies (registry l0)"
  have dP: "distinct (map fst ?P)" by (rule loadFiles_distinct) simp
  have ro: "set (rangeOrder rt RangeProfiles (map fst ?P)) = fst ` set ?P"
    using ok dP by (simp add: range_ok_def)
  have D: "\<And>k. map_of ?D k = map_option profileDeps (map_of ?P k)"
    unfolding d0 ff using ro by (rule recordDeps_all)
  have dD: "distinct (map fst ?D)" unfolding d0 by (rule recordDeps_distinct) simp
  have kD: "fst ` set ?D = fst ` set ?P" and eD: "dependsOn ?D = profileEdges ?P"
    using dependsOn_recordDeps[of ?D ?P] D by blast+
  have sub: "fst ` set ?D \<subseteq> fst ` set ?P" using kD by simp
  note s = topologicalSort_sound[OF ok dP dD sub t[unfolded ff]]
  have e: "\<And>k. map_option profileDeps (map_of (Profiles (registry l')) k) =
           map_option profileDeps (map_of ?P k)"
    using resolveInheritance_edges[OF r[unfolded ff]] .
  have eP: "profileEdges (Profiles (registry l')) = profileEdges ?P"
    and kP: "fst ` set (Profiles (registry l')) = fst ` set ?P"
    using same_edges[of "Profiles (registry l')" ?P] e by blast+
  show "distinct (LoadOrder (registry l'))" using s[THEN conjunct1] .
  show "set (LoadOrder (registry l')) = fst ` set (Profiles (registry l'))"
    using s[THEN conjunct2, THEN conjunct1] kP by simp
  show "depsFirst (Dependencies (registry l')) (LoadOrder (registry l'))"
    using s[THEN conjunct2, THEN conjunct2, THEN conjunct1] d' by simp
  show "dependsOn (Dependencies (registry l')) = profileEdges (Profiles (registry l'))"
    using eD eP d' by simp
  show "profileEdges (Profiles (registry l')) = profileEdges ?P" by (rule eP)
  show "fst ` set (Profiles (registry l')) = fst ` set ?P" by (rule kP)
qed

lemma LoadAll_success_files:
  "LoadAll rt walk l = (None, l') \<Longrightarrow> \<exists>files. findProfileFiles walk = Some files"
  by (auto simp: LoadAll_def Let_def split: option.splits)

subsection \<open>The effective profiles of the registry\<close>

text \<open>In an order in which no profile stands before its parent, every profile is merged
  once, after its parent has received its own final form.\<close>

lemma resolveInheritance_merged:
  assumes "resolveInheritance rt pids P mem = Inr (P', mem')"
    and "distinct pids"
    and "\<forall>ys pid zs c. pids = ys @ pid # zs \<longrightarrow> map_of P pid = Some c \<longrightarrow>
            InheritsFrom c \<noteq> [] \<longrightarrow> InheritsFrom c \<notin> set (pid # zs)"
  shows "(\<forall>pid \<in> set pids. \<forall>c. map_of P pid = Some c \<longrightarrow> InheritsFrom c \<noteq> [] \<longrightarrow>
            (\<exists>p' m. map_of P' (InheritsFrom c) = Some p' \<and>
                    map_of P' pid = Some (fst (mergeWithParent rt c p' m)))) \<and>
         (\<forall>pid \<in> set pids. \<forall>c. map_of P pid = Some c \<longrightarrow> InheritsFrom c = [] \<longrightarrow>
            map_of P' pid = Some c) \<and>
         (\<forall>k. k \<notin> set pids \<longrightarrow> map_of P' k = map_of P k)"
  using assms
proof (induction pids arbitrary: P mem)
  case Nil
  then show ?case by simp
next
  case (Cons x xs)
  from Cons.prems(1) obtain cx where cx: "map_of P x = Some cx"
    by (auto split: option.splits)
  have dx: "x \<notin> set xs" and dxs: "distinct xs" using Cons.prems(2) by simp_all
  have ord_tail: "\<And>P1. (\<forall>k. k \<noteq> x \<longrightarrow> map_of P1 k = map_of P k) \<Longrightarrow>
      \<forall>ys pid zs c. xs = ys @ pid # zs \<longrightarrow> map_of P1 pid = Some c \<longrightarrow>
         InheritsFrom c \<noteq> [] \<longrightarrow> InheritsFrom c \<notin> set (pid # zs)"
  proof (intro allI impI)
    fix P1 ys pid zs c
    assume same: "\<forall>k. k \<noteq> x \<longrightarrow> map_of P1 k = map_of P k"
      and xs: "xs = ys @ pid # zs" and c: "map_of P1 pid = Some c"
      and inh: "InheritsFrom c \<noteq> []"
    have "pid \<in> set xs" using xs by simp
    then have "pid \<noteq> x" using dx by auto
    then have "map_of P pid = Some c" using same c by simp
    moreover have "x # xs = (x # ys) @ pid # zs" using xs by simp
    ultimately show "InheritsFrom c \<notin> set (pid # zs)" using Cons.prems(3) inh by blast
  qed
  show ?case
  proof (cases "InheritsFrom cx \<noteq> []")
    case True
    have "x # xs = [] @ x # xs" by simp
    then have qn: "InheritsFrom cx \<notin> set (x # xs)" using Cons.prems(3) cx True by blast
    from Cons.prems(1) cx True obtain pq where
      pq: "map_of P (InheritsFrom cx) = Some pq"
      and rest: "resolveInheritance rt xs
                   (AList.update x (fst (mergeWithParent rt cx pq mem)) P)
                   (snd (mergeWithParent rt cx pq mem)) = Inr (P', mem')"
      by (auto split: option.splits prod.splits)
    let ?P1 = "AList.update x (fst (mergeWithParent rt cx pq mem)) P"
    have same: "\<forall>k. k \<noteq> x \<longrightarrow> map_of ?P1 k = map_of P k" by (simp add: update_conv')
    note ih = Cons.IH[OF rest dxs ord_tail[OF same]]
    have keep: "\<And>k. k \<notin> set xs \<Longrightarrow> map_of P' k = map_of ?P1 k" using ih by blast
    have px: "map_of P' x = Some (fst (mergeWithParent rt cx pq mem))"
      using keep[OF dx] by (simp add: update_conv')
    have pqf: "map_of P' (InheritsFrom cx) = Some pq"
      using keep[of "InheritsFrom cx"] qn pq by (simp add: update_conv')
    show ?thesis
    proof (intro conjI ballI allI impI)
      fix pid c
      assume pid: "pid \<in> set (x # xs)" and c: "map_of P pid = Some c"
        and inh: "InheritsFrom c \<noteq> []"
      show "\<exists>p' m. map_of P' (InheritsFrom c) = Some p' \<and>
                   map_of P' pid = Some (fst (mergeWithParent rt c p' m))"
      proof (cases "pid = x")
        case True
        then have "c = cx" using c cx by simp
        then show ?thesis using px pqf True by blast
      next
        case False
        then have "pid \<in> set xs" "map_of ?P1 pid = Some c"
          using pid c by (simp_all add: update_conv')
        then show ?thesis using ih inh by blast
      qed
    next
      fix pid c
      assume pid: "pid \<in> set (x # xs)" and c: "map_of P pid = Some c"
        and inh: "InheritsFrom c = []"
      have "pid \<noteq> x" using c cx True inh by auto
      then have "pid \<in> set xs" "map_of ?P1 pid = Some c"
        using pid c by (simp_all add: update_conv')
      then show "map_of P' pid = Some c" using ih inh by blast
    next
      fix k
      assume "k \<notin> set (x # xs)"
      then have "k \<notin> set xs" "k \<noteq> x" by simp_all
      then show "map_of P' k = map_of P k" using keep[of k] by (simp add: update_conv')
    qed
  next
    case False
    with Cons.prems(1) cx have rest: "resolveInheritance rt xs P mem = Inr (P', mem')" by simp
    have same: "\<forall>k. k \<noteq> x \<longrightarrow> map_of P k = map_of P k" by simp
    note ih = Cons.IH[OF rest dxs ord_tail[OF same]]
    have keep: "\<And>k. k \<notin> set xs \<Longrightarrow> map_of P' k = map_of P k" using ih by blast
    show ?thesis
    proof (intro conjI ballI allI impI)
      fix pid c
      assume pid: "pid \<in> set (x # xs)" and c: "map_of P pid = Some c"
        and inh: "InheritsFrom c \<noteq> []"
      have "pid \<noteq> x" using c cx False inh by auto
      then have "pid \<in> set xs" using pid by simp
      then show "\<exists>p' m. map_of P' (InheritsFrom c) = Some p' \<and>
                   map_of P' pid = Some (fst (mergeWithParent rt c p' m))"
        using ih c inh by blast
    next
      fix pid c
      assume pid: "pid \<in> set (x # xs)" and c: "map_of P pid = Some c"
        and inh: "InheritsFrom c = []"
      show "map_of P' pid = Some c"
      proof (cases "pid = x")
        case True
        then show ?thesis using keep[OF dx] c by simp
      next
        case False
        then have "pid \<in> set xs" using pid by simp
        then show ?thesis using ih c inh by blast
      qed
    next
      fix k
      assume "k \<notin> set (x # xs)"
      then have "k \<notin> set xs" by simp
      then show "map_of P' k = map_of P k" by (rule keep)
    qed
  qed
qed


lemma loadFiles_valid:
  "\<forall>k p. map_of acc k = Some p \<longrightarrow> validateProfile p = None \<Longrightarrow>
   map_of (loadFiles rt files acc) k = Some p \<Longrightarrow> validateProfile p = None"
proof (induction rt files acc rule: loadFiles.induct)
  case (1 rt profiles)
  then show ?case by simp
next
  case (2 rt path decoded files profiles)
  show ?case
  proof (cases "loadProfileFile rt decoded")
    case (Inl e)
    then show ?thesis using 2 by simp
  next
    case (Inr profile)
    then have v: "validateProfile profile = None"
      by (auto simp: loadProfileFile_def Let_def split: option.splits)
    have "\<forall>k p. map_of (AList.update (Profile.ID profile) profile profiles) k = Some p \<longrightarrow>
            validateProfile p = None"
      using "2.prems"(1) v by (auto simp: update_conv')
    then show ?thesis using "2.IH" "2.prems"(2) Inr by simp
  qed
qed

text \<open>
  After a successful \<^verbatim>\<open>LoadAll\<close>, a profile that names no parent is in the registry as it
  was loaded, and a profile that names a parent is in the registry as the merge of the
  profile as it was loaded with its parent as the registry has it.
\<close>

lemma LoadAll_effective:
  assumes ok: "range_ok rt" and res: "LoadAll rt walk l = (None, l')"
    and fw: "findProfileFiles walk = Some files"
    and c: "map_of (loadFiles rt files []) pid = Some child"
  shows "InheritsFrom child \<noteq> [] \<longrightarrow>
           (\<exists>parent' m. map_of (Profiles (registry l')) (InheritsFrom child) = Some parent' \<and>
                        map_of (Profiles (registry l')) pid =
                          Some (fst (mergeWithParent rt child parent' m)))"
    and "InheritsFrom child = [] \<longrightarrow> map_of (Profiles (registry l')) pid = Some child"
proof -
  let ?P = "loadFiles rt files []"
  let ?order = "LoadOrder (registry l')"
  let ?D = "Dependencies (registry l')"
  from res obtain files' l0 where
    f: "findProfileFiles walk = Some files'"
    and d0: "Dependencies (registry l0) =
       recordDeps (loadFiles rt files' [])
         (rangeOrder rt RangeProfiles (map fst (loadFiles rt files' []))) []"
    and t: "topologicalSort rt l0 (loadFiles rt files' []) = Inr (LoadOrder (registry l'))"
    and d': "Dependencies (registry l') = Dependencies (registry l0)"
    and r: "resolveInheritance rt (LoadOrder (registry l')) (loadFiles rt files' []) (heap l0) =
       Inr (Profiles (registry l'), heap l')"
    by (rule LoadAll_success)
  have ff: "files' = files" using f fw by simp
  note s = LoadAll_sound[OF ok res fw]
  have edges: "dependsOn ?D = profileEdges ?P" using s(4) s(5) by simp
  have ord: "\<forall>ys q zs p. ?order = ys @ q # zs \<longrightarrow> map_of ?P q = Some p \<longrightarrow>
               InheritsFrom p \<noteq> [] \<longrightarrow> InheritsFrom p \<notin> set (q # zs)"
  proof (intro allI impI)
    fix ys q zs p
    assume o: "?order = ys @ q # zs" and p: "map_of ?P q = Some p"
      and inh: "InheritsFrom p \<noteq> []"
    have "InheritsFrom p \<in> set (profileDeps p)" using inh by (simp add: profileDeps_def)
    then have "(InheritsFrom p, q) \<in> profileEdges ?P" using p by (auto simp: profileEdges_def)
    then have "(InheritsFrom p, q) \<in> dependsOn ?D" using edges by simp
    then have dep: "InheritsFrom p \<in> set (getList ?D q)" by (simp add: dependsOn_def)
    have i: "length ys < length ?order" "?order ! length ys = q" using o by simp_all
    from s(3) i dep obtain j where j: "j < length ys" "?order ! j = InheritsFrom p"
      unfolding depsFirst_def by blast
    then have "InheritsFrom p = ys ! j" using o by (simp add: nth_append)
    then have "InheritsFrom p \<in> set ys" using j(1) by simp
    moreover have "set ys \<inter> set (q # zs) = {}" using s(1) o by simp
    ultimately show "InheritsFrom p \<notin> set (q # zs)" by blast
  qed
  have "pid \<in> fst ` set ?P" using c by (force dest: map_of_SomeD)
  then have pin: "pid \<in> set ?order" using s(2) s(6) by simp
  note m = resolveInheritance_merged[OF r[unfolded ff] s(1) ord]
  show "InheritsFrom child \<noteq> [] \<longrightarrow>
           (\<exists>parent' m. map_of (Profiles (registry l')) (InheritsFrom child) = Some parent' \<and>
                        map_of (Profiles (registry l')) pid =
                          Some (fst (mergeWithParent rt child parent' m)))"
    using m[THEN conjunct1] pin c by blast
  show "InheritsFrom child = [] \<longrightarrow> map_of (Profiles (registry l')) pid = Some child"
    using m[THEN conjunct2, THEN conjunct1] pin c by blast
qed

lemma validateProfile_None:
  "validateProfile p = None \<Longrightarrow>
   System p \<noteq> [] \<and> MaxTokens (ModelParams p) \<noteq> 0 \<and> TimeoutSeconds (ModelParams p) \<noteq> 0"
  by (auto simp: validateProfile_def split: if_splits)

text \<open>
  So, in the registry that \<^verbatim>\<open>LoadAll\<close> leaves: the system prompt of a child is that of its
  parent in the registry, a blank line and its own; its temperature is its own unless that
  is zero, and then that of the parent in the registry; its maximum of tokens and its
  timeout are its own, since no file with a zero there is loaded; and \<^verbatim>\<open>top_p\<close> and \<^verbatim>\<open>top_k\<close>
  are its own.
\<close>

lemma LoadAll_effective_parameters:
  assumes ok: "range_ok rt" and res: "LoadAll rt walk l = (None, l')"
    and fw: "findProfileFiles walk = Some files"
    and c: "map_of (loadFiles rt files []) pid = Some child"
    and inh: "InheritsFrom child \<noteq> []"
  shows "\<exists>parent' child'.
           map_of (Profiles (registry l')) (InheritsFrom child) = Some parent' \<and>
           map_of (Profiles (registry l')) pid = Some child' \<and>
           System child' = System parent' @ [CHR 0x0A, CHR 0x0A] @ System child \<and>
           Temperature (ModelParams child') =
             (if Temperature (ModelParams child) \<noteq> 0 then Temperature (ModelParams child)
              else Temperature (ModelParams parent')) \<and>
           MaxTokens (ModelParams child') = MaxTokens (ModelParams child) \<and>
           TimeoutSeconds (ModelParams child') = TimeoutSeconds (ModelParams child) \<and>
           TopP (ModelParams child') = TopP (ModelParams child) \<and>
           TopK (ModelParams child') = TopK (ModelParams child)"
proof -
  let ?P = "loadFiles rt files []"
  let ?R = "Profiles (registry l')"
  have valid: "\<And>k p. map_of ?P k = Some p \<Longrightarrow> validateProfile p = None"
    by (rule loadFiles_valid[of "[]"]) simp_all
  from LoadAll_effective(1)[OF ok res fw c] inh obtain parent' m where
    pa: "map_of ?R (InheritsFrom child) = Some parent'"
    and ch: "map_of ?R pid = Some (fst (mergeWithParent rt child parent' m))"
    by blast
  have "InheritsFrom child \<in> fst ` set ?R" using pa by (force dest: map_of_SomeD)
  then have "InheritsFrom child \<in> fst ` set ?P" using LoadAll_sound(6)[OF ok res fw] by simp
  then obtain p0 where p0: "map_of ?P (InheritsFrom child) = Some p0"
    by (cases "map_of ?P (InheritsFrom child)") (auto simp: map_of_eq_None_iff)
  have s0: "System p0 \<noteq> []" using validateProfile_None[OF valid[OF p0]] by simp
  have sp: "System parent' \<noteq> []"
  proof (cases "InheritsFrom p0 = []")
    case True
    then have "map_of ?R (InheritsFrom child) = Some p0"
      using LoadAll_effective(2)[OF ok res fw p0] by simp
    then show ?thesis using pa s0 by simp
  next
    case False
    then obtain g m0 where
      "map_of ?R (InheritsFrom child) = Some (fst (mergeWithParent rt p0 g m0))"
      using LoadAll_effective(1)[OF ok res fw p0] by blast
    then have "parent' = fst (mergeWithParent rt p0 g m0)" using pa by simp
    then show ?thesis using s0 by (simp add: mergeWithParent_System)
  qed
  have vc: "System child \<noteq> []" "MaxTokens (ModelParams child) \<noteq> 0"
    "TimeoutSeconds (ModelParams child) \<noteq> 0"
    using validateProfile_None[OF valid[OF c]] by simp_all
  show ?thesis
    using pa ch sp vc by (simp add: mergeWithParent_System mergeWithParent_ModelParams)
qed

subsection \<open>Failures of the sort\<close>

lemma addEdges_Inl:
  "addEdges P pid deps g = Inl err \<Longrightarrow>
   \<exists>d \<in> set deps. err = DependencyNotFound d pid \<and> map_of P d = None"
  by (induction P pid deps g rule: addEdges.induct) (auto split: if_splits)

lemma addEdges_missing:
  "\<exists>d \<in> set deps. map_of P d = None \<Longrightarrow>
   \<exists>d. addEdges P pid deps g = Inl (DependencyNotFound d pid)"
  by (induction P pid deps g rule: addEdges.induct) auto

lemma buildGraph_Inl:
  "buildGraph P D pids g = Inl err \<Longrightarrow>
   \<exists>p \<in> set pids. \<exists>d \<in> set (getList D p). err = DependencyNotFound d p \<and> map_of P d = None"
proof (induction P D pids g rule: buildGraph.induct)
  case (1 profiles dependencies g)
  then show ?case by simp
next
  case (2 profiles dependencies pid pids g)
  show ?case
  proof (cases "addEdges profiles pid (getList dependencies pid) g")
    case (Inl e)
    then have "err = e" using "2.prems" by simp
    then show ?thesis using addEdges_Inl[OF Inl] by auto
  next
    case (Inr g')
    then have "buildGraph profiles dependencies pids g' = Inl err" using "2.prems" by simp
    then show ?thesis using "2.IH"[OF Inr] by auto
  qed
qed

lemma buildGraph_missing:
  "\<exists>p \<in> set pids. \<exists>d \<in> set (getList D p). map_of P d = None \<Longrightarrow>
   \<exists>d p. buildGraph P D pids g = Inl (DependencyNotFound d p)"
proof (induction P D pids g rule: buildGraph.induct)
  case (1 profiles dependencies g)
  then show ?case by simp
next
  case (2 profiles dependencies pid pids g)
  show ?case
  proof (cases "addEdges profiles pid (getList dependencies pid) g")
    case (Inl e)
    then obtain d where "e = DependencyNotFound d pid" using addEdges_Inl[OF Inl] by auto
    then show ?thesis using Inl by auto
  next
    case (Inr g')
    have "\<not> (\<exists>d \<in> set (getList dependencies pid). map_of profiles d = None)"
    proof
      assume "\<exists>d \<in> set (getList dependencies pid). map_of profiles d = None"
      then obtain d' where
        "addEdges profiles pid (getList dependencies pid) g = Inl (DependencyNotFound d' pid)"
        using addEdges_missing by blast
      with Inr show False by simp
    qed
    then have "\<exists>p \<in> set pids. \<exists>d \<in> set (getList dependencies p). map_of profiles d = None"
      using "2.prems" by auto
    then show ?thesis using "2.IH"[OF Inr] Inr by simp
  qed
qed

lemma topologicalSort_Inl:
  "topologicalSort rt l P = Inl err \<Longrightarrow>
   err = CircularDependency \<or>
   (\<exists>d p. err = DependencyNotFound d p \<and> d \<in> set (getList (Dependencies (registry l)) p) \<and>
          map_of P d = None)"
proof -
  assume a: "topologicalSort rt l P = Inl err"
  let ?g = "(fold (\<lambda>pid m. AList.update pid ([]::string list) m)
               (rangeOrder rt RangeProfilesInit (map fst P)) [],
             fold (\<lambda>pid m. AList.update pid (0::int) m)
               (rangeOrder rt RangeProfilesInit (map fst P)) [])"
  let ?b = "buildGraph P (Dependencies (registry l))
              (rangeOrder rt RangeDependencies (map fst (Dependencies (registry l)))) ?g"
  show ?thesis
  proof (cases ?b)
    case (Inl e)
    then have "err = e" using a by (simp add: topologicalSort_def Let_def)
    then show ?thesis using buildGraph_Inl[OF Inl] by auto
  next
    case (Inr g')
    then have "err = CircularDependency" using a
      by (cases g') (auto simp: topologicalSort_def Let_def split: if_splits)
    then show ?thesis by simp
  qed
qed

lemma topologicalSort_missing:
  assumes ok: "range_ok rt" and dD: "distinct (map fst (Dependencies (registry l)))"
    and q: "q \<in> fst ` set (Dependencies (registry l))"
    and d: "d \<in> set (getList (Dependencies (registry l)) q)" and m: "map_of P d = None"
  shows "\<exists>d' q'. topologicalSort rt l P = Inl (DependencyNotFound d' q')"
proof -
  let ?dids = "rangeOrder rt RangeDependencies (map fst (Dependencies (registry l)))"
  let ?g = "(fold (\<lambda>pid m. AList.update pid ([]::string list) m)
               (rangeOrder rt RangeProfilesInit (map fst P)) [],
             fold (\<lambda>pid m. AList.update pid (0::int) m)
               (rangeOrder rt RangeProfilesInit (map fst P)) [])"
  have "q \<in> set ?dids" using ok dD q by (simp add: range_ok_def)
  then have "\<exists>p \<in> set ?dids. \<exists>d \<in> set (getList (Dependencies (registry l)) p). map_of P d = None"
    using d m by blast
  then obtain d' q' where
    "buildGraph P (Dependencies (registry l)) ?dids ?g = Inl (DependencyNotFound d' q')"
    using buildGraph_missing[of ?dids "Dependencies (registry l)" P ?g] by blast
  then have "topologicalSort rt l P = Inl (DependencyNotFound d' q')"
    by (simp add: topologicalSort_def Let_def)
  then show ?thesis by blast
qed

text \<open>The loader as \<^verbatim>\<open>topologicalSort\<close> finds it during \<^verbatim>\<open>LoadAll\<close>: cleared, with the
  dependency lists of the profiles recorded.\<close>

definition depsLoader :: "runtime \<Rightarrow> Loader \<Rightarrow> Profile gomap \<Rightarrow> Loader" where
  "depsLoader rt l P =
     l\<lparr>registry := \<lparr>Profiles = [],
                     Dependencies = recordDeps P (rangeOrder rt RangeProfiles (map fst P)) [],
                     LoadOrder = []\<rparr>,
       cache := []\<rparr>"

lemma LoadAll_sort_fails:
  assumes "findProfileFiles walk = Some files"
    and "topologicalSort rt (depsLoader rt l (loadFiles rt files [])) (loadFiles rt files []) =
           Inl err"
  shows "LoadAll rt walk l = (Some err, depsLoader rt l (loadFiles rt files []))"
proof -
  let ?P = "loadFiles rt files []"
  let ?lr = "l\<lparr>registry := \<lparr>Profiles = [], Dependencies = [], LoadOrder = []\<rparr>, cache := []\<rparr>"
  have eq: "?lr\<lparr>registry := (registry ?lr)
                  \<lparr>Dependencies :=
                     recordDeps ?P (rangeOrder rt RangeProfiles (map fst ?P))
                       (Dependencies (registry ?lr))\<rparr>\<rparr> = depsLoader rt l ?P"
    by (simp add: depsLoader_def)
  have b: "buildDependencyGraph rt ?lr ?P = (Some err, depsLoader rt l ?P)"
    unfolding buildDependencyGraph_def Let_def eq using assms(2) by simp
  have "LoadAll rt walk l =
      (case buildDependencyGraph rt ?lr ?P of
         (Some err, l) \<Rightarrow> (Some err, l)
       | (None, l) \<Rightarrow>
           (case resolveInheritance rt (LoadOrder (registry l)) ?P (heap l) of
              Inl err \<Rightarrow> (Some err, l)
            | Inr (profiles, mem) \<Rightarrow>
                (None, l\<lparr>registry := (registry l)\<lparr>Profiles := profiles\<rparr>, heap := mem\<rparr>)))"
    unfolding LoadAll_def Let_def assms(1) by (simp only: option.case)
  also have "\<dots> = (Some err, depsLoader rt l ?P)"
    by (simp only: b prod.case option.case)
  finally show ?thesis .
qed

lemma depsLoader_dependencies:
  assumes ok: "range_ok rt" and dP: "distinct (map fst P)"
  shows "distinct (map fst (Dependencies (registry (depsLoader rt l P))))"
    and "fst ` set (Dependencies (registry (depsLoader rt l P))) = fst ` set P"
    and "dependsOn (Dependencies (registry (depsLoader rt l P))) = profileEdges P"
proof -
  let ?D = "Dependencies (registry (depsLoader rt l P))"
  have d0: "?D = recordDeps P (rangeOrder rt RangeProfiles (map fst P)) []"
    by (simp add: depsLoader_def)
  have ro: "set (rangeOrder rt RangeProfiles (map fst P)) = fst ` set P"
    using ok dP by (simp add: range_ok_def)
  have D: "\<And>k. map_of ?D k = map_option profileDeps (map_of P k)"
    unfolding d0 using ro by (rule recordDeps_all)
  show "distinct (map fst ?D)" unfolding d0 by (rule recordDeps_distinct) simp
  show "fst ` set ?D = fst ` set P" and "dependsOn ?D = profileEdges P"
    using dependsOn_recordDeps[of ?D P] D by blast+
qed

subsection \<open>Concrete directories\<close>

definition mk_profile :: "string \<Rightarrow> string \<Rightarrow> string list \<Rightarrow> Profile" where
  "mk_profile pid parent deps =
     \<lparr>ID = pid, Version = ''1.0.0'', InheritsFrom = parent, DependsOn = deps,
      ConditionalExecution = None, Model = ''qwen2.5:7b'',
      ModelParams = \<lparr>Temperature = 0.1, MaxTokens = 1000, TimeoutSeconds = 30,
                      TopP = 0, TopK = 0\<rparr>,
      Response = \<lparr>Schema = ''{}'',
                   Validation = \<lparr>RequiredFields = [''action''], ConfidenceRange = (0, 1),
                                  AllowedActions = []\<rparr>\<rparr>,
      System = ''Prompt of '' @ pid, FewShot = Exact [],
      Policy = \<lparr>Conditions = Exact []\<rparr>,
      CreatedAt = 0, UpdatedAt = 0\<rparr>"


definition files_cycle :: "(string \<times> Profile option) list" where
  "files_cycle = [(''a.yaml'', Some (mk_profile ''a'' [] [''b''])),
                  (''b.yaml'', Some (mk_profile ''b'' ''a'' [])),
                  (''c.yaml'', Some (mk_profile ''c'' [] []))]"

definition files_missing :: "(string \<times> Profile option) list" where
  "files_missing = [(''a.yaml'', Some (mk_profile ''a'' [] [''ghost''])),
                    (''c.yaml'', Some (mk_profile ''c'' [] []))]"

definition files_two :: "(string \<times> Profile option) list" where
  "files_two = [(''a.yaml'', Some (mk_profile ''a'' [] [])),
                (''b.yaml'', Some (mk_profile ''b'' [] []))]"

text \<open>A runtime that visits the in-degree map in the reverse order of insertion.\<close>

definition rt_queue_reversed :: runtime where
  "rt_queue_reversed =
     \<lparr>now = 0, formatFloat2 = (\<lambda>x. []),
      rangeOrder = (\<lambda>site ks. if site = RangeInDegree then rev ks else ks),
      sortOrder = (\<lambda>idx. idx),
      growCap = (\<lambda>oldCap newLen. if newLen > 2 * oldCap then newLen else 2 * oldCap)\<rparr>"

lemma range_ok_queue_reversed: "range_ok rt_queue_reversed"
  by (simp add: range_ok_def rt_queue_reversed_def)

lemma profileEdges_iff:
  "(d, p) \<in> profileEdges P \<longleftrightarrow>
   d \<in> set (case map_of P p of Some profile \<Rightarrow> profileDeps profile | None \<Rightarrow> [])"
  by (cases "map_of P p") (simp_all add: profileEdges_def)

subsection \<open>Dependency order (C8)\<close>




subsection \<open>Cycles (C2)\<close>

lemma depsLoader_registry:
  "Profiles (registry (depsLoader rt l P)) = []"
  "LoadOrder (registry (depsLoader rt l P)) = []"
  by (simp_all add: depsLoader_def)

lemma topologicalSort_cycle:
  assumes ok: "range_ok rt" and dP: "distinct (map fst P)"
    and cyc: "(p, p) \<in> (profileEdges P)\<^sup>+"
  shows "\<exists>err. topologicalSort rt (depsLoader rt l P) P = Inl err"
proof (cases "topologicalSort rt (depsLoader rt l P) P")
  case (Inl err)
  then show ?thesis by blast
next
  case (Inr order)
  let ?D = "Dependencies (registry (depsLoader rt l P))"
  note d = depsLoader_dependencies[OF ok dP, of l]
  have sub: "fst ` set ?D \<subseteq> fst ` set P" using d(2) by simp
  note s = topologicalSort_sound[OF ok dP d(1) sub Inr]
  have dist: "distinct order" using s[THEN conjunct1] .
  have keys: "set order = fst ` set P" using s[THEN conjunct2, THEN conjunct1] .
  have df: "depsFirst ?D order" using s[THEN conjunct2, THEN conjunct2, THEN conjunct1] .
  obtain y where "(y, p) \<in> profileEdges P" using cyc by (meson tranclD2)
  then have "map_of P p \<noteq> None" by (auto simp: profileEdges_def)
  then have "p \<in> set order" using keys map_of_key_iff[of P p] by simp
  moreover have "(p, p) \<in> (dependsOn ?D)\<^sup>+" using cyc d(3) by simp
  ultimately have "appearsBefore order p p" using depsFirst_trancl[OF df dist] by blast
  then show ?thesis using appearsBefore_irrefl[OF dist] by blast
qed

definition allPresent :: "Profile gomap \<Rightarrow> bool" where
  "allPresent P \<longleftrightarrow>
     list_all (\<lambda>(k, profile). list_all (\<lambda>d. map_of P d \<noteq> None) (profileDeps profile)) P"

lemma allPresent_edge:
  assumes "allPresent P" and "distinct (map fst P)" and "(d, q) \<in> profileEdges P"
  shows "map_of P d \<noteq> None"
proof -
  from assms(3) obtain profile where pr: "map_of P q = Some profile" "d \<in> set (profileDeps profile)"
    by (auto simp: profileEdges_def)
  then have "(q, profile) \<in> set P" by (simp add: map_of_SomeD)
  then have "list_all (\<lambda>d. map_of P d \<noteq> None) (profileDeps profile)"
    using assms(1) by (auto simp: allPresent_def list_all_iff)
  then show ?thesis using pr(2) by (simp add: list_all_iff)
qed

text \<open>
  C2 (as amended).  The loader does not quarantine: when the dependency edges of the
  profiles read from the directory contain a cycle, \<^verbatim>\<open>LoadAll\<close> returns an error and loads no
  profile at all; the registry keeps an empty profile map and an empty load order.  The
  error is the circular-dependency error when every named dependency is a profile (a missing
  one is reported first otherwise).
\<close>

theorem LoadAll_cycle_fails:
  assumes ok: "range_ok rt" and fw: "findProfileFiles walk = Some files"
    and cyc: "(p, p) \<in> (profileEdges (loadFiles rt files []))\<^sup>+"
  shows "\<exists>err l'. LoadAll rt walk l = (Some err, l') \<and>
           (err = CircularDependency \<or> (\<exists>d q. err = DependencyNotFound d q)) \<and>
           (allPresent (loadFiles rt files []) \<longrightarrow> err = CircularDependency) \<and>
           Profiles (registry l') = [] \<and> LoadOrder (registry l') = []"
proof -
  let ?P = "loadFiles rt files []"
  let ?l = "depsLoader rt l ?P"
  have dP: "distinct (map fst ?P)" by (rule loadFiles_distinct) simp
  obtain err where t: "topologicalSort rt ?l ?P = Inl err"
    using topologicalSort_cycle[OF ok dP cyc] by blast
  have la: "LoadAll rt walk l = (Some err, ?l)" using LoadAll_sort_fails[OF fw t] .
  note e = topologicalSort_Inl[OF t]
  have kind: "err = CircularDependency \<or> (\<exists>d q. err = DependencyNotFound d q)"
    using e by blast
  have pres: "allPresent ?P \<longrightarrow> err = CircularDependency"
  proof
    assume ap: "allPresent ?P"
    show "err = CircularDependency"
    proof (rule ccontr)
      assume "err \<noteq> CircularDependency"
      then obtain d q where dq: "d \<in> set (getList (Dependencies (registry ?l)) q)"
        "map_of ?P d = None" using e by blast
      then have "(d, q) \<in> profileEdges ?P"
        using depsLoader_dependencies(3)[OF ok dP, of l] by (auto simp: dependsOn_def)
      then show False using allPresent_edge[OF ap dP] dq(2) by blast
    qed
  qed
  show ?thesis using la kind pres depsLoader_registry[of rt l ?P] by blast
qed

lemma cycle_edges:
  "(''a'', ''a'') \<in> (profileEdges (loadFiles rt_plain files_cycle []))\<^sup>+"
proof -
  let ?P = "loadFiles rt_plain files_cycle []"
  have e1: "''a'' \<in> set (case map_of ?P ''b'' of
                            Some profile \<Rightarrow> profileDeps profile | None \<Rightarrow> [])"
    by code_simp
  have e2: "''b'' \<in> set (case map_of ?P ''a'' of
                            Some profile \<Rightarrow> profileDeps profile | None \<Rightarrow> [])"
    by code_simp
  have "(''a'', ''b'') \<in> profileEdges ?P" "(''b'', ''a'') \<in> profileEdges ?P"
    using e1 e2 by (simp_all only: profileEdges_iff)
  then show ?thesis by (rule trancl_into_trancl2[OF _ r_into_trancl])
qed

lemma find_cycle: "findProfileFiles (Some files_cycle) = Some files_cycle"
  by code_simp

lemma cycle_allPresent: "allPresent (loadFiles rt_plain files_cycle [])"
  by code_simp

theorem LoadAll_cycle_fails_witness:
  "range_ok rt_plain \<and> findProfileFiles (Some files_cycle) = Some files_cycle \<and>
   (''a'', ''a'') \<in> (profileEdges (loadFiles rt_plain files_cycle []))\<^sup>+ \<and>
   allPresent (loadFiles rt_plain files_cycle []) \<and>
   (\<exists>l'. LoadAll rt_plain (Some files_cycle) (NewLoader ''profiles'') =
           (Some CircularDependency, l') \<and>
         Profiles (registry l') = [] \<and> LoadOrder (registry l') = [])"
  using LoadAll_cycle_fails[OF range_ok_plain find_cycle cycle_edges, of "NewLoader ''profiles''"]
    range_ok_plain find_cycle cycle_edges cycle_allPresent
  by blast

text \<open>
  C2 as stated fails: with a cycle between \<open>a\<close> and \<open>b\<close> and a valid profile \<open>c\<close> that
  depends on nothing, \<^verbatim>\<open>LoadAll\<close> returns the circular-dependency error and the registry
  holds no profile, \<open>c\<close> included.
\<close>

theorem cycle_quarantine_counterexample:
  "fst (LoadAll rt_plain (Some files_cycle) (NewLoader ''profiles'')) = Some CircularDependency \<and>
   Profiles (registry (snd (LoadAll rt_plain (Some files_cycle) (NewLoader ''profiles'')))) = [] \<and>
   map_of (Profiles (registry (snd (LoadAll rt_plain (Some files_cycle)
     (NewLoader ''profiles''))))) ''c'' = None \<and>
   validateProfile (mk_profile ''c'' [] []) = None \<and>
   profileDeps (mk_profile ''c'' [] []) = []"
  by code_simp

subsection \<open>Missing dependencies (C7)\<close>

text \<open>
  C7 (as amended).  When a profile read from the directory names a dependency (through
  \<^verbatim>\<open>inherits_from\<close> or \<^verbatim>\<open>depends_on\<close>) that is not among the profiles read, \<^verbatim>\<open>LoadAll\<close>
  returns the error naming a missing dependency and the profile that asks for it, and loads
  no profile at all: the registry keeps an empty profile map and an empty load order.
\<close>

theorem LoadAll_missing_dependency_fails:
  assumes ok: "range_ok rt" and fw: "findProfileFiles walk = Some files"
    and q: "map_of (loadFiles rt files []) q = Some profile"
    and d: "d \<in> set (profileDeps profile)"
    and m: "map_of (loadFiles rt files []) d = None"
  shows "\<exists>d' q' l'. LoadAll rt walk l = (Some (DependencyNotFound d' q'), l') \<and>
           (d', q') \<in> profileEdges (loadFiles rt files []) \<and>
           map_of (loadFiles rt files []) d' = None \<and>
           Profiles (registry l') = [] \<and> LoadOrder (registry l') = []"
proof -
  let ?P = "loadFiles rt files []"
  let ?l = "depsLoader rt l ?P"
  let ?D = "Dependencies (registry ?l)"
  have dP: "distinct (map fst ?P)" by (rule loadFiles_distinct) simp
  note dl = depsLoader_dependencies[OF ok dP, of l]
  have "(d, q) \<in> profileEdges ?P" using q d by (auto simp: profileEdges_def)
  then have dq: "d \<in> set (getList ?D q)" using dl(3) by (auto simp: dependsOn_def)
  have "q \<in> fst ` set ?P" using q map_of_key_iff[of ?P q] by simp
  then have qk: "q \<in> fst ` set ?D" using dl(2) by simp
  obtain d' q' where t: "topologicalSort rt ?l ?P = Inl (DependencyNotFound d' q')"
    using topologicalSort_missing[OF ok dl(1) qk dq m] by blast
  have la: "LoadAll rt walk l = (Some (DependencyNotFound d' q'), ?l)"
    using LoadAll_sort_fails[OF fw t] .
  from topologicalSort_Inl[OF t] have "d' \<in> set (getList ?D q')" "map_of ?P d' = None"
    by auto
  then have "(d', q') \<in> profileEdges ?P" "map_of ?P d' = None"
    using dl(3) by (auto simp: dependsOn_def)
  then show ?thesis using la depsLoader_registry[of rt l ?P] by blast
qed

lemma find_missing: "findProfileFiles (Some files_missing) = Some files_missing"
  by code_simp

lemma missing_profile:
  "map_of (loadFiles rt_plain files_missing []) ''a'' = Some (mk_profile ''a'' [] [''ghost''])"
  by (simp add: files_missing_def loadProfileFile_def validateProfile_def mk_profile_def
      rt_plain_def Let_def)

lemma missing_ghost: "map_of (loadFiles rt_plain files_missing []) ''ghost'' = None"
  by (simp add: files_missing_def loadProfileFile_def validateProfile_def mk_profile_def
      rt_plain_def Let_def)

lemma missing_dep: "''ghost'' \<in> set (profileDeps (mk_profile ''a'' [] [''ghost'']))"
  by (simp add: profileDeps_def mk_profile_def)

theorem LoadAll_missing_dependency_fails_witness:
  "range_ok rt_plain \<and> findProfileFiles (Some files_missing) = Some files_missing \<and>
   map_of (loadFiles rt_plain files_missing []) ''a'' = Some (mk_profile ''a'' [] [''ghost'']) \<and>
   ''ghost'' \<in> set (profileDeps (mk_profile ''a'' [] [''ghost''])) \<and>
   map_of (loadFiles rt_plain files_missing []) ''ghost'' = None \<and>
   (\<exists>d' q' l'. LoadAll rt_plain (Some files_missing) (NewLoader ''profiles'') =
        (Some (DependencyNotFound d' q'), l') \<and>
      (d', q') \<in> profileEdges (loadFiles rt_plain files_missing []) \<and>
      map_of (loadFiles rt_plain files_missing []) d' = None \<and>
      Profiles (registry l') = [] \<and> LoadOrder (registry l') = [])"
  using LoadAll_missing_dependency_fails[OF range_ok_plain find_missing missing_profile
      missing_dep missing_ghost, of "NewLoader ''profiles''"]
    range_ok_plain find_missing missing_profile missing_dep missing_ghost
  by blast

text \<open>
  C7 as stated fails: \<open>a\<close> names the dependency \<open>ghost\<close>, which is no profile; the valid and
  independent profile \<open>c\<close> is not loaded either.
\<close>

theorem missing_dependency_counterexample:
  "fst (LoadAll rt_plain (Some files_missing) (NewLoader ''profiles'')) =
     Some (DependencyNotFound ''ghost'' ''a'') \<and>
   Profiles (registry (snd (LoadAll rt_plain (Some files_missing) (NewLoader ''profiles'')))) =
     [] \<and>
   map_of (Profiles (registry (snd (LoadAll rt_plain (Some files_missing)
     (NewLoader ''profiles''))))) ''c'' = None \<and>
   validateProfile (mk_profile ''c'' [] []) = None \<and>
   profileDeps (mk_profile ''c'' [] []) = []"
  by code_simp

subsection \<open>Determinism (C4)\<close>

lemma validateProfile_timestamps:
  "validateProfile (profile\<lparr>CreatedAt := a, UpdatedAt := b\<rparr>) = validateProfile profile"
  by (simp add: validateProfile_def)

lemma loadProfileFile_id:
  "(case loadProfileFile rt1 decoded of Inl e \<Rightarrow> None | Inr p \<Rightarrow> Some (Profile.ID p)) =
   (case loadProfileFile rt2 decoded of Inl e \<Rightarrow> None | Inr p \<Rightarrow> Some (Profile.ID p))"
  by (cases decoded)
     (auto simp: loadProfileFile_def Let_def validateProfile_timestamps split: option.splits)

lemma loadFiles_keys:
  "map fst acc1 = map fst acc2 \<Longrightarrow>
   map fst (loadFiles rt1 files acc1) = map fst (loadFiles rt2 files acc2)"
proof (induction files arbitrary: acc1 acc2)
  case Nil
  then show ?case by simp
next
  case (Cons f files)
  obtain path decoded where f: "f = (path, decoded)" by (cases f)
  show ?case
  proof (cases "loadProfileFile rt1 decoded")
    case (Inl e1)
    then obtain e2 where "loadProfileFile rt2 decoded = Inl e2"
      using loadProfileFile_id[of rt1 decoded rt2] by (cases "loadProfileFile rt2 decoded") auto
    then show ?thesis using Inl f Cons.IH[OF Cons.prems] by simp
  next
    case (Inr p1)
    then obtain p2 where p2: "loadProfileFile rt2 decoded = Inr p2" "Profile.ID p2 = Profile.ID p1"
      using loadProfileFile_id[of rt1 decoded rt2] by (cases "loadProfileFile rt2 decoded") auto
    have "map fst (AList.update (Profile.ID p1) p1 acc1) =
          map fst (AList.update (Profile.ID p2) p2 acc2)"
      using Cons.prems p2(2) by (simp add: update_keys)
    then show ?thesis using Inr p2 f Cons.IH by simp
  qed
qed

text \<open>
  C4 (as amended).  The load order follows the order in which the Go runtime iterates over
  the maps, and no tie is broken by identifier.  Two runs of \<^verbatim>\<open>LoadAll\<close> over the same
  directory contents that both succeed load the same profile identifiers, and each load
  order lists each of them exactly once, so the two orders are permutations of each other.
\<close>

theorem LoadAll_two_runs:
  assumes ok1: "range_ok rt1" and ok2: "range_ok rt2"
    and r1: "LoadAll rt1 walk l1 = (None, l1')" and r2: "LoadAll rt2 walk l2 = (None, l2')"
  shows "set (LoadOrder (registry l1')) = set (LoadOrder (registry l2')) \<and>
         distinct (LoadOrder (registry l1')) \<and> distinct (LoadOrder (registry l2')) \<and>
         length (LoadOrder (registry l1')) = length (LoadOrder (registry l2')) \<and>
         fst ` set (Profiles (registry l1')) = fst ` set (Profiles (registry l2'))"
proof -
  obtain files where fw: "findProfileFiles walk = Some files"
    using LoadAll_success_files[OF r1] by blast
  note s1 = LoadAll_sound[OF ok1 r1 fw]
  note s2 = LoadAll_sound[OF ok2 r2 fw]
  have "map fst (loadFiles rt1 files []) = map fst (loadFiles rt2 files [])"
    by (rule loadFiles_keys) simp
  then have "fst ` set (loadFiles rt1 files []) = fst ` set (loadFiles rt2 files [])"
    by (metis list.set_map)
  then have keys: "fst ` set (Profiles (registry l1')) = fst ` set (Profiles (registry l2'))"
    using s1(6) s2(6) by simp
  then have sets: "set (LoadOrder (registry l1')) = set (LoadOrder (registry l2'))"
    using s1(2) s2(2) by simp
  have "length (LoadOrder (registry l1')) = card (set (LoadOrder (registry l1')))"
    using s1(1) by (simp add: distinct_card)
  moreover have "length (LoadOrder (registry l2')) = card (set (LoadOrder (registry l2')))"
    using s2(1) by (simp add: distinct_card)
  ultimately have "length (LoadOrder (registry l1')) = length (LoadOrder (registry l2'))"
    using sets by simp
  then show ?thesis using sets keys s1(1) s2(1) by blast
qed

lemma LoadAll_two_plain:
  "LoadAll rt_plain (Some files_two) (NewLoader ''profiles'') =
     (None, snd (LoadAll rt_plain (Some files_two) (NewLoader ''profiles'')))"
proof -
  have "fst (LoadAll rt_plain (Some files_two) (NewLoader ''profiles'')) = None" by code_simp
  then show ?thesis by (simp add: prod_eq_iff)
qed

lemma LoadAll_two_reversed:
  "LoadAll rt_queue_reversed (Some files_two) (NewLoader ''profiles'') =
     (None, snd (LoadAll rt_queue_reversed (Some files_two) (NewLoader ''profiles'')))"
proof -
  have "fst (LoadAll rt_queue_reversed (Some files_two) (NewLoader ''profiles'')) = None"
    by code_simp
  then show ?thesis by (simp add: prod_eq_iff)
qed

theorem LoadAll_two_runs_witness:
  "range_ok rt_plain \<and> range_ok rt_queue_reversed \<and>
   LoadAll rt_plain (Some files_two) (NewLoader ''profiles'') =
     (None, snd (LoadAll rt_plain (Some files_two) (NewLoader ''profiles''))) \<and>
   LoadAll rt_queue_reversed (Some files_two) (NewLoader ''profiles'') =
     (None, snd (LoadAll rt_queue_reversed (Some files_two) (NewLoader ''profiles''))) \<and>
   set (LoadOrder (registry (snd (LoadAll rt_plain (Some files_two)
         (NewLoader ''profiles''))))) =
   set (LoadOrder (registry (snd (LoadAll rt_queue_reversed (Some files_two)
         (NewLoader ''profiles'')))))"
  using LoadAll_two_runs[OF range_ok_plain range_ok_queue_reversed LoadAll_two_plain
      LoadAll_two_reversed]
    range_ok_plain range_ok_queue_reversed LoadAll_two_plain LoadAll_two_reversed
  by blast

text \<open>
  C4 as stated fails: over the same two independent profiles \<open>a\<close> and \<open>b\<close>, one iteration
  order of the in-degree map gives the load order \<open>a, b\<close> and another gives \<open>b, a\<close>, which is
  not the lexicographic order.
\<close>

theorem load_order_determinism_counterexample:
  "range_ok rt_plain \<and> range_ok rt_queue_reversed \<and>
   fst (LoadAll rt_plain (Some files_two) (NewLoader ''profiles'')) = None \<and>
   fst (LoadAll rt_queue_reversed (Some files_two) (NewLoader ''profiles'')) = None \<and>
   LoadOrder (registry (snd (LoadAll rt_plain (Some files_two) (NewLoader ''profiles'')))) =
     [''a'', ''b''] \<and>
   LoadOrder (registry (snd (LoadAll rt_queue_reversed (Some files_two)
     (NewLoader ''profiles'')))) = [''b'', ''a'']"
proof -
  have "fst (LoadAll rt_plain (Some files_two) (NewLoader ''profiles'')) = None" by code_simp
  moreover have "fst (LoadAll rt_queue_reversed (Some files_two) (NewLoader ''profiles'')) = None"
    by code_simp
  moreover have "LoadOrder (registry (snd (LoadAll rt_plain (Some files_two)
      (NewLoader ''profiles'')))) = [''a'', ''b'']" by code_simp
  moreover have "LoadOrder (registry (snd (LoadAll rt_queue_reversed (Some files_two)
      (NewLoader ''profiles'')))) = [''b'', ''a'']" by code_simp
  ultimately show ?thesis using range_ok_plain range_ok_queue_reversed by blast
qed

end
